theory Spec2Isabelle
  imports Complex_Main "HOL-Library.Word" "HOL-Library.AList"
begin

section \<open>JavaScript strings\<close>

text \<open>
  A JavaScript string is a sequence of 16-bit code units. String literals of the source
  are written \<open>js ''...''\<close>, single code units \<open>cu CHR ''/''\<close>.
\<close>

type_synonym code_unit = "16 word"
type_synonym jsstring = "code_unit list"

abbreviation cu :: "char \<Rightarrow> code_unit" where
  "cu \<equiv> of_char"

abbreviation js :: "string \<Rightarrow> jsstring" where
  "js \<equiv> map of_char"

text \<open>\<open>s.startsWith('/')\<close>.\<close>

definition startsWith :: "jsstring \<Rightarrow> code_unit \<Rightarrow> bool" where
  "startsWith s c = (case s of [] \<Rightarrow> False | d # _ \<Rightarrow> d = c)"

text \<open>
  \<open>s.split(sep)\<close> for a separator of one code unit: the pieces between the
  separators, in order; the empty string gives one empty piece.
\<close>

fun split_on :: "code_unit \<Rightarrow> jsstring \<Rightarrow> jsstring list" where
  "split_on sep [] = [[]]"
| "split_on sep (c # cs) =
     (if c = sep then [] # split_on sep cs
      else (case split_on sep cs of [] \<Rightarrow> [[c]] | p # ps \<Rightarrow> (c # p) # ps))"

text \<open>
  \<open>xs.indexOf(v, from)\<close>: the first index not below the second argument that holds \<open>v\<close>;
  \<open>None\<close> is the source's \<open>-1\<close>.
\<close>

fun indexOf_from :: "'a list \<Rightarrow> 'a \<Rightarrow> nat \<Rightarrow> nat option" where
  "indexOf_from [] v start = None"
| "indexOf_from (x # xs) v 0 =
     (if x = v then Some 0 else map_option Suc (indexOf_from xs v 0))"
| "indexOf_from (x # xs) v (Suc n) = map_option Suc (indexOf_from xs v n)"


section \<open>Platform: \<open>decodeURIComponent\<close>\<close>

text \<open>
  ECMAScript's \<open>decodeURIComponent\<close>: every \<open>%XX\<close> escape is replaced by the character
  it encodes, escapes of bytes above \<open>0x7F\<close> being read as one UTF-8 sequence. It throws
  \<open>URIError\<close> (here \<open>None\<close>) on a truncated or non-hexadecimal escape and on a byte
  sequence that is not valid UTF-8.
\<close>

definition hex_value :: "code_unit \<Rightarrow> nat option" where
  "hex_value c =
     (if cu CHR ''0'' \<le> c \<and> c \<le> cu CHR ''9'' then Some (unat c - 48)
      else if cu CHR ''a'' \<le> c \<and> c \<le> cu CHR ''f'' then Some (unat c - 87)
      else if cu CHR ''A'' \<le> c \<and> c \<le> cu CHR ''F'' then Some (unat c - 55)
      else None)"

text \<open>The byte written by the two hexadecimal digits at the front of a string.\<close>

definition escape_byte :: "jsstring \<Rightarrow> nat option" where
  "escape_byte s =
     (case s of
        h1 # h2 # _ \<Rightarrow>
          (case hex_value h1 of None \<Rightarrow> None
           | Some a \<Rightarrow> (case hex_value h2 of None \<Rightarrow> None | Some b \<Rightarrow> Some (16 * a + b)))
      | _ \<Rightarrow> None)"

text \<open>The byte written by an escape \<open>%XX\<close> at the front of a string.\<close>

definition pct_escape :: "jsstring \<Rightarrow> nat option" where
  "pct_escape s =
     (case s of [] \<Rightarrow> None
      | p # rest \<Rightarrow> if p = cu CHR ''%'' then escape_byte rest else None)"

text \<open>The bytes of \<open>k\<close> consecutive escapes \<open>%XX\<close> at the front of a string.\<close>

fun escapes :: "nat \<Rightarrow> jsstring \<Rightarrow> nat list option" where
  "escapes 0 s = Some []"
| "escapes (Suc k) s =
     (case pct_escape s of
        None \<Rightarrow> None
      | Some b \<Rightarrow> map_option ((#) b) (escapes k (drop 3 s)))"

text \<open>The number of leading one bits of a byte (5 stands for five or more).\<close>

definition leading_ones :: "nat \<Rightarrow> nat" where
  "leading_ones b =
     (if b < 0x80 then 0 else if b < 0xC0 then 1 else if b < 0xE0 then 2
      else if b < 0xF0 then 3 else if b < 0xF8 then 4 else 5)"

definition continuation :: "nat \<Rightarrow> bool" where
  "continuation b = (0x80 \<le> b \<and> b < 0xC0)"

text \<open>
  The code point of a multi-byte UTF-8 sequence; \<open>None\<close> when a continuation byte is
  missing its mark, the encoding is overlong, or the value is a surrogate or lies
  beyond \<open>U+10FFFF\<close>.
\<close>

fun utf8_decode :: "nat list \<Rightarrow> nat option" where
  "utf8_decode [b0, b1] =
     (let cp = (b0 - 0xC0) * 64 + (b1 - 0x80)
      in if continuation b1 \<and> 0x80 \<le> cp then Some cp else None)"
| "utf8_decode [b0, b1, b2] =
     (let cp = (b0 - 0xE0) * 4096 + (b1 - 0x80) * 64 + (b2 - 0x80)
      in if continuation b1 \<and> continuation b2 \<and> 0x800 \<le> cp
            \<and> \<not> (0xD800 \<le> cp \<and> cp \<le> 0xDFFF)
         then Some cp else None)"
| "utf8_decode [b0, b1, b2, b3] =
     (let cp = (b0 - 0xF0) * 262144 + (b1 - 0x80) * 4096 + (b2 - 0x80) * 64 + (b3 - 0x80)
      in if continuation b1 \<and> continuation b2 \<and> continuation b3
            \<and> 0x10000 \<le> cp \<and> cp \<le> 0x10FFFF
         then Some cp else None)"
| "utf8_decode _ = None"

text \<open>The UTF-16 code units of a code point.\<close>

definition utf16 :: "nat \<Rightarrow> jsstring" where
  "utf16 cp =
     (if cp < 0x10000 then [of_nat cp]
      else [of_nat (0xD800 + (cp - 0x10000) div 0x400),
            of_nat (0xDC00 + (cp - 0x10000) mod 0x400)])"

fun decodeURIComponent :: "jsstring \<Rightarrow> jsstring option" where
  "decodeURIComponent [] = Some []"
| "decodeURIComponent (c # cs) =
     (if c \<noteq> cu CHR ''%'' then map_option ((#) c) (decodeURIComponent cs)
      else (case escape_byte cs of
              None \<Rightarrow> None
            | Some b \<Rightarrow>
                (let n = leading_ones b in
                 if n = 0
                 then map_option ((#) (of_nat b)) (decodeURIComponent (drop 2 cs))
                 else if n = 1 \<or> 4 < n then None
                 else (case escapes (n - 1) (drop 2 cs) of
                         None \<Rightarrow> None
                       | Some bs \<Rightarrow>
                           (case utf8_decode (b # bs) of
                              None \<Rightarrow> None
                            | Some cp \<Rightarrow>
                                map_option ((@) (utf16 cp))
                                  (decodeURIComponent (drop (2 + 3 * (n - 1)) cs)))))))"

text \<open>
  \<open>parts.map(decodeURIComponent)\<close> inside \<open>try\<close>: the decoded parts, or \<open>None\<close> when
  one of them throws.
\<close>

fun decode_all :: "jsstring list \<Rightarrow> jsstring list option" where
  "decode_all [] = Some []"
| "decode_all (p # ps) =
     (case decodeURIComponent p of
        None \<Rightarrow> None
      | Some d \<Rightarrow> map_option ((#) d) (decode_all ps))"


section \<open>Platform: the URL parser\<close>

text \<open>
  \<open>new URL('http://localhost' + path)\<close> for a \<open>path\<close> that starts with \<open>/\<close>, after the
  URL Standard: the scheme is special, the authority ends at the first code point of
  \<open>path\<close>, and the rest is read by the path, query and fragment states. Only \<open>pathname\<close>
  and \<open>search\<close> are read by the storage.
\<close>

text \<open>
  The input is first converted to scalar values: a surrogate pair is one code point, a
  lone surrogate is replaced by \<open>U+FFFD\<close>.
\<close>

definition is_high_surrogate :: "code_unit \<Rightarrow> bool" where
  "is_high_surrogate c = (0xD800 \<le> c \<and> c \<le> 0xDBFF)"

definition is_low_surrogate :: "code_unit \<Rightarrow> bool" where
  "is_low_surrogate c = (0xDC00 \<le> c \<and> c \<le> 0xDFFF)"

definition scalar_value :: "code_unit \<Rightarrow> nat" where
  "scalar_value c = (if is_high_surrogate c \<or> is_low_surrogate c then 0xFFFD else unat c)"

fun scalar_values :: "jsstring \<Rightarrow> nat list" where
  "scalar_values [] = []"
| "scalar_values (c # cs) =
     (case cs of
        [] \<Rightarrow> [scalar_value c]
      | d # ds \<Rightarrow>
          if is_high_surrogate c \<and> is_low_surrogate d
          then (0x10000 + (unat c - 0xD800) * 0x400 + (unat d - 0xDC00)) # scalar_values ds
          else scalar_value c # scalar_values cs)"

definition utf8_encode :: "nat \<Rightarrow> nat list" where
  "utf8_encode cp =
     (if cp < 0x80 then [cp]
      else if cp < 0x800 then [0xC0 + cp div 64, 0x80 + cp mod 64]
      else if cp < 0x10000
        then [0xE0 + cp div 4096, 0x80 + (cp div 64) mod 64, 0x80 + cp mod 64]
      else [0xF0 + cp div 262144, 0x80 + (cp div 4096) mod 64,
            0x80 + (cp div 64) mod 64, 0x80 + cp mod 64])"

definition hex_digit :: "nat \<Rightarrow> code_unit" where
  "hex_digit n = (if n < 10 then of_nat (48 + n) else of_nat (55 + n))"

definition percent_byte :: "nat \<Rightarrow> jsstring" where
  "percent_byte b = [cu CHR ''%'', hex_digit (b div 16), hex_digit (b mod 16)]"

text \<open>The code units that an escape is made of: \<open>%\<close> and the digits \<open>0-9\<close>, \<open>A-F\<close>.\<close>

definition escape_unit :: "code_unit \<Rightarrow> bool" where
  "escape_unit u =
     (u = cu CHR ''%'' \<or> (48 \<le> unat u \<and> unat u \<le> 57) \<or> (65 \<le> unat u \<and> unat u \<le> 70))"

text \<open>
  The percent-encode sets of the URL Standard, as predicates on code points. (Later
  editions of the standard add \<open>^\<close> to the path set; no statement below depends on
  which characters other than \<open>/\<close>, \<open>?\<close> and \<open>#\<close> are escaped.)
\<close>

definition c0_control_set :: "nat \<Rightarrow> bool" where
  "c0_control_set cp = (cp \<le> 0x1F \<or> 0x7E < cp)"

definition query_set :: "nat \<Rightarrow> bool" where
  "query_set cp = (c0_control_set cp \<or> cp \<in> {0x20, 0x22, 0x23, 0x3C, 0x3E})"

definition special_query_set :: "nat \<Rightarrow> bool" where
  "special_query_set cp = (query_set cp \<or> cp = 0x27)"

definition path_set :: "nat \<Rightarrow> bool" where
  "path_set cp = (query_set cp \<or> cp \<in> {0x3F, 0x60, 0x7B, 0x7D})"

definition percent_encode :: "(nat \<Rightarrow> bool) \<Rightarrow> nat \<Rightarrow> jsstring" where
  "percent_encode in_set cp =
     (if in_set cp then concat (map percent_byte (utf8_encode cp)) else [of_nat cp])"

text \<open>Single-dot and double-dot path segments, compared without regard to ASCII case.\<close>

definition ascii_lower :: "code_unit \<Rightarrow> code_unit" where
  "ascii_lower c = (if cu CHR ''A'' \<le> c \<and> c \<le> cu CHR ''Z'' then c + 0x20 else c)"

definition single_dot :: "jsstring \<Rightarrow> bool" where
  "single_dot b = (map ascii_lower b = js ''.'' \<or> map ascii_lower b = js ''%2e'')"

definition double_dot :: "jsstring \<Rightarrow> bool" where
  "double_dot b =
     (map ascii_lower b = js ''..'' \<or> map ascii_lower b = js ''.%2e''
      \<or> map ascii_lower b = js ''%2e.'' \<or> map ascii_lower b = js ''%2e%2e'')"

text \<open>
  The path state at a segment that ends with a slash (or, the scheme being special, a
  backslash), and at one that ends with the input, \<open>?\<close> or \<open>#\<close>.
\<close>

definition slash_segment :: "jsstring list \<Rightarrow> jsstring \<Rightarrow> jsstring list" where
  "slash_segment segs buf =
     (if double_dot buf then butlast segs
      else if single_dot buf then segs
      else segs @ [buf])"

definition end_segment :: "jsstring list \<Rightarrow> jsstring \<Rightarrow> jsstring list" where
  "end_segment segs buf =
     (if double_dot buf then butlast segs @ [[]]
      else if single_dot buf then segs @ [[]]
      else segs @ [buf])"

text \<open>
  The path state: the segments of the path, and the input after \<open>?\<close> when the path ends
  there (\<open>None\<close> when the URL has no query).
\<close>

fun path_state :: "nat list \<Rightarrow> jsstring list \<Rightarrow> jsstring \<Rightarrow> jsstring list \<times> nat list option" where
  "path_state [] segs buf = (end_segment segs buf, None)"
| "path_state (c # cs) segs buf =
     (if c = 0x2F \<or> c = 0x5C then path_state cs (slash_segment segs buf) []
      else if c = 0x3F then (end_segment segs buf, Some cs)
      else if c = 0x23 then (end_segment segs buf, None)
      else path_state cs segs (buf @ percent_encode path_set c))"

text \<open>The query state: the input up to \<open>#\<close>, percent-encoded.\<close>

definition query_state :: "nat list \<Rightarrow> jsstring" where
  "query_state cs =
     concat (map (percent_encode special_query_set) (takeWhile (\<lambda>c. c \<noteq> 0x23) cs))"

record URL =
  pathname :: jsstring
  search :: jsstring

definition strip_trailing :: "nat list \<Rightarrow> nat list" where
  "strip_trailing cs = rev (dropWhile (\<lambda>c. c \<le> 0x20) (rev cs))"

definition remove_tab_newline :: "nat list \<Rightarrow> nat list" where
  "remove_tab_newline cs = filter (\<lambda>c. c \<noteq> 0x09 \<and> c \<noteq> 0x0A \<and> c \<noteq> 0x0D) cs"

definition URL_localhost :: "jsstring \<Rightarrow> URL" where
  "URL_localhost path =
     (let inp = remove_tab_newline (strip_trailing (scalar_values path))
      in case path_state (tl inp) [] [] of
           (segs, q) \<Rightarrow>
             \<lparr> pathname = concat (map ((#) (cu CHR ''/'')) segs),
               search = (case q of
                           None \<Rightarrow> []
                         | Some rest \<Rightarrow>
                             (let query = query_state rest
                              in if query = [] then [] else cu CHR ''?'' # query)) \<rparr>)"


section \<open>Regular expressions\<close>

text \<open>
  The storage calls two operations on a \<open>RegExp\<close>: \<open>re.test(s)\<close> and
  \<open>s.replace(re, replacement)\<close>. A regular expression supplied by the configuration is
  modelled by these two functions (of one without the \<open>g\<close> and \<open>y\<close> flags, whose \<open>test\<close>
  keeps no state). On the ignore pattern only \<open>test\<close> is ever called, so it is modelled
  by that function alone.
\<close>

record RegExp =
  test :: "jsstring \<Rightarrow> bool"
  replace :: "jsstring \<Rightarrow> jsstring \<Rightarrow> jsstring"

type_synonym pattern = "jsstring \<Rightarrow> bool"

text \<open>
  \<open>FORBIDDEN_CHARACTERS = /[/?<>\\:*|":\u0000-\u001F\u0080-\u009F]/u\<close>: \<open>test\<close> holds
  when some character of the string is in the class.
\<close>

definition forbidden_unit :: "code_unit \<Rightarrow> bool" where
  "forbidden_unit c =
     (c = cu CHR ''/'' \<or> c = cu CHR ''?'' \<or> c = cu CHR ''<'' \<or> c = cu CHR ''>''
      \<or> c = 0x5C \<or> c = cu CHR '':'' \<or> c = cu CHR ''*'' \<or> c = cu CHR ''|''
      \<or> c = 0x22 \<or> c \<le> 0x1F \<or> (0x80 \<le> c \<and> c \<le> 0x9F))"

definition FORBIDDEN_CHARACTERS :: pattern where
  "FORBIDDEN_CHARACTERS v = list_ex forbidden_unit v"

text \<open>\<open>/^\.\.?$/u\<close>, tested on the parts of a path array.\<close>

definition dot_or_dotdot :: pattern where
  "dot_or_dotdot v = (v = js ''.'' \<or> v = js ''..'')"

text \<open>\<open>/^\./u\<close>, the default ignore pattern.\<close>

definition leading_dot :: pattern where
  "leading_dot v = startsWith v (cu CHR ''.'')"


section \<open>Data model (\<open>file-system-storage-models.ts\<close>)\<close>

text \<open>A reference is a URL-encoded path or an array of path parts.\<close>

datatype FilePath = PathString jsstring | PathArray "jsstring list"

text \<open>
  The errors thrown by the storage, with the data they carry: the reference, the path
  parts and the fields of each class (the message text is left out). \<open>StorageError\<close> is
  the base class, thrown for a string that does not start with \<open>/\<close>; \<open>ErrnoException\<close>
  is an error of the \<open>fs\<close> module, \<open>SyntaxError\<close> one of \<open>new RegExp\<close>.
\<close>

datatype error =
    StorageError FilePath
  | MalformedPathError FilePath "jsstring list"
  | NotNormalizedError FilePath "jsstring list" jsstring
  | InvalidPathError FilePath "jsstring list"
  | ConsecutiveSlashesError FilePath "jsstring list"
  | ForbiddenCharacterError FilePath "jsstring list"
  | IgnoredFileError FilePath "jsstring list"
  | TrailingSlashError FilePath "jsstring list" "jsstring list"
  | IsDirectoryError FilePath "jsstring list" jsstring
  | DoesNotExistError FilePath "jsstring list" jsstring
  | ErrnoException jsstring
  | SyntaxError jsstring

record ContentEncodingPath =
  name :: jsstring
  path :: jsstring

datatype Matcher = MatcherRegExp RegExp | MatcherSource jsstring

record ContentEncodingMapping =
  matcher_option :: Matcher
  encodings :: "ContentEncodingPath list"

text \<open>A preference: the field \<open>path\<close> of the source is \<open>pref_path\<close> here.\<close>

record ContentEncodingPreference =
  pref_path :: jsstring
  order :: nat

text \<open>
  \<open>encodingPreferences\<close> is a JavaScript \<open>Map\<close>: an association list in insertion order,
  without duplicate keys.
\<close>

record RegexpContentEncodingMapping =
  matcher :: RegExp
  encodingPreferences :: "(jsstring \<times> ContentEncodingPreference) list"
  identityEncodingPreference :: ContentEncodingPreference

datatype OnDirectory = ServeIndex | ListFiles | Off

datatype IgnoreOption = IgnoreUndefined | IgnoreFalse | IgnoreRegExp pattern | IgnoreSource jsstring

record Stats =
  isDirectory :: bool
  stats_mtimeMs :: real
  stats_size :: real

text \<open>
  The \<open>fs\<close> module is an option of the storage. Its functions act on a state \<open>'w\<close> of
  the world outside; each returns its outcome and the next state. \<open>fs_open\<close> gives the
  descriptor, or \<open>None\<close> for an error; \<open>fs_fstat\<close> and \<open>fs_close\<close> give the code of their
  error, if any.
\<close>

record 'w FSModule =
  fs_open :: "jsstring \<Rightarrow> 'w \<Rightarrow> nat option \<times> 'w"
  fs_fstat :: "nat \<Rightarrow> 'w \<Rightarrow> (jsstring + Stats) \<times> 'w"
  fs_close :: "nat \<Rightarrow> 'w \<Rightarrow> jsstring option \<times> 'w"

record 'w FileSystemStorageOptions =
  opt_contentEncodingMappings :: "ContentEncodingMapping list option"
  opt_ignorePattern :: IgnoreOption
  opt_onDirectory :: "OnDirectory option"
  opt_fsModule :: "'w FSModule"

text \<open>
  What the storage uses from outside this file: \<open>join\<close> of the \<open>path\<close> module (specific
  to the operating system), \<open>new RegExp(source, 'u')\<close> (\<open>None\<close> when it throws) and
  \<open>acceptEncodings\<close> of \<open>utils.ts\<close>, which gives the acceptable encodings of a request
  in the order of preference.
\<close>

record platform =
  join :: "jsstring \<Rightarrow> jsstring list \<Rightarrow> jsstring"
  RegExp_new :: "jsstring \<Rightarrow> RegExp option"
  acceptEncodings :: "jsstring option \<Rightarrow> (jsstring \<times> ContentEncodingPreference) list
     \<Rightarrow> ContentEncodingPreference \<Rightarrow> (jsstring \<times> ContentEncodingPreference) list"

record 'w FileSystemStorage =
  root :: jsstring
  contentEncodingMappings :: "RegexpContentEncodingMapping list option"
  ignorePattern :: "pattern option"
  onDirectory :: OnDirectory
  fsModule :: "'w FSModule"
  platform :: platform

record StorageRequestHeaders =
  accept_encoding :: "jsstring option"

record FileData =
  pathParts :: "jsstring list"
  resolvedPath :: jsstring
  fd :: nat
  stats :: Stats

record StorageInfo =
  attachedData :: FileData
  fileName :: "jsstring option"
  mtimeMs :: "real option"
  size_bytes :: "real option"
  vary :: "jsstring option"
  contentEncoding :: "jsstring option"
  mimeType :: "jsstring option"
  mimeTypeCharset :: "jsstring option"


section \<open>The constructor\<close>

text \<open>\<open>new Map(entries)\<close>: a later entry with the same key replaces the value in place.\<close>

definition Map_new :: "('k \<times> 'v) list \<Rightarrow> ('k \<times> 'v) list" where
  "Map_new entries = fold (\<lambda>(k, v) m. AList.update k v m) entries []"

text \<open>
  \<open>encodingConfig.encodings.map(({ name, path }, order) => [name, { path, order }])\<close>:
  the entries of the preference map, each with its position in the list.
\<close>

definition preferenceEntries ::
  "ContentEncodingPath list \<Rightarrow> (jsstring \<times> ContentEncodingPreference) list" where
  "preferenceEntries encs =
     map (\<lambda>(order, e). (name e, \<lparr> pref_path = path e, order = order \<rparr>)) (enumerate 0 encs)"

text \<open>The callback of \<open>contentEncodingMappings.map\<close> in the constructor.\<close>

definition normalizeMapping :: "platform \<Rightarrow> ContentEncodingMapping \<Rightarrow> error + RegexpContentEncodingMapping" where
  "normalizeMapping pf encodingConfig =
     (let declared = Map_new (preferenceEntries (encodings encodingConfig));
          (identityPreference, preferences) =
            (case map_of declared (js ''identity'') of
               Some p \<Rightarrow> (p, declared)
             | None \<Rightarrow>
                 (let p = \<lparr> pref_path = js ''$&'', order = length (encodings encodingConfig) \<rparr>
                  in (p, AList.update (js ''identity'') p declared)))
      in case (case matcher_option encodingConfig of
                 MatcherRegExp r \<Rightarrow> Some r
               | MatcherSource src \<Rightarrow> RegExp_new pf src) of
           None \<Rightarrow> Inl (SyntaxError (js ''Invalid regular expression''))
         | Some m \<Rightarrow>
             Inr \<lparr> matcher = m, encodingPreferences = preferences,
                   identityEncodingPreference = identityPreference \<rparr>)"

text \<open>\<open>xs.map(f)\<close> for a callback that may throw: the first error ends it.\<close>

fun map_throwing :: "('a \<Rightarrow> error + 'b) \<Rightarrow> 'a list \<Rightarrow> error + 'b list" where
  "map_throwing f [] = Inr []"
| "map_throwing f (x # xs) =
     (case f x of
        Inl e \<Rightarrow> Inl e
      | Inr y \<Rightarrow> (case map_throwing f xs of Inl e \<Rightarrow> Inl e | Inr ys \<Rightarrow> Inr (y # ys)))"

definition FileSystemStorage_new ::
  "platform \<Rightarrow> jsstring \<Rightarrow> 'w FileSystemStorageOptions \<Rightarrow> error + 'w FileSystemStorage" where
  "FileSystemStorage_new pf root_dir opts =
     (case (case opt_contentEncodingMappings opts of
              Some ms \<Rightarrow> map_sum id Some (map_throwing (normalizeMapping pf) ms)
            | None \<Rightarrow> Inr None) of
        Inl e \<Rightarrow> Inl e
      | Inr mappings \<Rightarrow>
          (case (case opt_ignorePattern opts of
                   IgnoreUndefined \<Rightarrow> Inr (Some leading_dot)
                 | IgnoreFalse \<Rightarrow> Inr None
                 | IgnoreRegExp r \<Rightarrow> Inr (Some r)
                 | IgnoreSource src \<Rightarrow>
                     (case RegExp_new pf src of
                        None \<Rightarrow> Inl (SyntaxError (js ''Invalid regular expression''))
                      | Some r \<Rightarrow> Inr (Some (test r)))) of
             Inl e \<Rightarrow> Inl e
           | Inr ignore \<Rightarrow>
               Inr \<lparr> root = root_dir,
                     contentEncodingMappings = mappings,
                     ignorePattern = ignore,
                     onDirectory = (case opt_onDirectory opts of None \<Rightarrow> Off | Some d \<Rightarrow> d),
                     fsModule = opt_fsModule opts,
                     platform = pf \<rparr>))"


section \<open>\<open>parsePath\<close>\<close>

text \<open>
  The first statement of \<open>parsePath\<close>: the path parts of the reference. A string is
  parsed as a URL, split at \<open>/\<close> and decoded, and must be its own normal form; an array
  must start with the empty string and hold no \<open>.\<close> or \<open>..\<close>.
\<close>

definition referenceParts :: "FilePath \<Rightarrow> error + jsstring list" where
  "referenceParts ref =
     (case ref of
        PathString p \<Rightarrow>
          if \<not> startsWith p (cu CHR ''/'') then Inl (StorageError ref)
          else
            (let url = URL_localhost p;
                 rawParts = split_on (cu CHR ''/'') (pathname url)
             in case decode_all rawParts of
                  None \<Rightarrow> Inl (MalformedPathError ref rawParts)
                | Some parts \<Rightarrow>
                    (let normalizedPath = pathname url @ search url
                     in if p \<noteq> normalizedPath
                        then Inl (NotNormalizedError ref parts normalizedPath)
                        else Inr parts))
      | PathArray parts \<Rightarrow>
          if (case parts of [] \<Rightarrow> True | p0 # _ \<Rightarrow> p0 \<noteq> [])
             \<or> find dot_or_dotdot parts \<noteq> None
          then Inl (InvalidPathError ref parts)
          else Inr parts)"

text \<open>
  \<open>parsePath\<close> gives the path parts and \<open>haveTrailingSlash\<close>. The test
  \<open>if (pathParts.find(...))\<close> on the forbidden characters is on the part found, which
  counts as true when it is not the empty string.
\<close>

definition parsePath :: "'w FileSystemStorage \<Rightarrow> FilePath \<Rightarrow> error + jsstring list \<times> bool" where
  "parsePath st ref =
     (case referenceParts ref of
        Inl e \<Rightarrow> Inl e
      | Inr parts \<Rightarrow>
          (let emptyPartIndex = indexOf_from parts [] 1
           in if emptyPartIndex \<noteq> None \<and> emptyPartIndex \<noteq> Some (length parts - 1)
              then Inl (ConsecutiveSlashesError ref parts)
              else
                (let haveTrailingSlash = (emptyPartIndex \<noteq> None)
                 in if (case find FORBIDDEN_CHARACTERS parts of
                          None \<Rightarrow> False | Some v \<Rightarrow> v \<noteq> [])
                    then Inl (ForbiddenCharacterError ref parts)
                    else if (case ignorePattern st of
                               None \<Rightarrow> False
                             | Some ignore \<Rightarrow> find ignore parts \<noteq> None)
                    then Inl (IgnoredFileError ref parts)
                    else if haveTrailingSlash
                    then
                      (let untrailed = butlast parts
                       in case onDirectory st of
                            ListFiles \<Rightarrow> Inr (untrailed, True)
                          | ServeIndex \<Rightarrow> Inr (untrailed @ [js ''index.html''], False)
                          | Off \<Rightarrow> Inl (TrailingSlashError ref parts untrailed))
                    else Inr (parts, False))))"


section \<open>Opening and closing\<close>

text \<open>
  The calls of the storage to the \<open>fs\<close> module are recorded next to the state of the
  world: a descriptor that \<open>open\<close> returned, and a descriptor that \<open>close\<close> was called
  on (whatever \<open>close\<close> answered).
\<close>

datatype fs_call = Opened nat | Closed nat

record 'w io =
  world :: 'w
  calls :: "fs_call list"

text \<open>\<open>safeOpen\<close>: the descriptor, or \<open>None\<close> (\<open>undefined\<close>) when \<open>fsOpen\<close> fails.\<close>

definition safeOpen :: "'w FileSystemStorage \<Rightarrow> jsstring \<Rightarrow> 'w io \<Rightarrow> nat option \<times> 'w io" where
  "safeOpen st p s =
     (case fs_open (fsModule st) p (world s) of
        (None, w) \<Rightarrow> (None, s\<lparr>world := w\<rparr>)
      | (Some d, w) \<Rightarrow> (Some d, s\<lparr>world := w, calls := calls s @ [Opened d]\<rparr>))"

definition stat :: "'w FileSystemStorage \<Rightarrow> nat \<Rightarrow> jsstring \<Rightarrow> 'w io \<Rightarrow> (error + Stats) \<times> 'w io" where
  "stat st d p s =
     (case fs_fstat (fsModule st) d (world s) of
        (r, w) \<Rightarrow> (map_sum ErrnoException id r, s\<lparr>world := w\<rparr>))"

definition fsClose :: "'w FileSystemStorage \<Rightarrow> nat \<Rightarrow> 'w io \<Rightarrow> error option \<times> 'w io" where
  "fsClose st d s =
     (case fs_close (fsModule st) d (world s) of
        (r, w) \<Rightarrow> (map_option ErrnoException r, s\<lparr>world := w, calls := calls s @ [Closed d]\<rparr>))"

definition earlyClose :: "'w FileSystemStorage \<Rightarrow> nat \<Rightarrow> jsstring \<Rightarrow> 'w io \<Rightarrow> error option \<times> 'w io" where
  "earlyClose st d p s = fsClose st d s"

text \<open>
  The \<open>for\<close> loop of \<open>open\<close> over the acceptable encodings. It ends by \<open>break\<close> with the
  descriptor, the stats, the encoding name and the encoded path (\<open>Inr (Some \<dots>)\<close>), at
  the end of the list with \<open>fd\<close> undefined (\<open>Inr None\<close>), or by an error; an error comes
  with the value of the variable \<open>fd\<close> at the \<open>throw\<close>, which the \<open>catch\<close> block reads.
\<close>

fun open_loop ::
  "'w FileSystemStorage \<Rightarrow> FilePath \<Rightarrow> jsstring list \<Rightarrow> jsstring \<Rightarrow> RegExp
   \<Rightarrow> (jsstring \<times> ContentEncodingPreference) list \<Rightarrow> 'w io
   \<Rightarrow> (error \<times> nat option + (nat \<times> Stats \<times> jsstring \<times> jsstring) option) \<times> 'w io" where
  "open_loop st ref parts resolved m [] s = (Inr None, s)"
| "open_loop st ref parts resolved m ((acceptableEncodingName, pref) # rest) s =
     (let encodedPath = replace m resolved (pref_path pref)
      in case safeOpen st encodedPath s of
           (None, s1) \<Rightarrow> open_loop st ref parts resolved m rest s1
         | (Some d, s1) \<Rightarrow>
             (case stat st d encodedPath s1 of
                (Inl err, s2) \<Rightarrow> (Inl (err, Some d), s2)
              | (Inr sts, s2) \<Rightarrow>
                  if isDirectory sts
                  then
                    if acceptableEncodingName = js ''identity''
                    then (Inl (IsDirectoryError ref parts resolved, Some d), s2)
                    else
                      (case earlyClose st d encodedPath s2 of
                         (Some err, s3) \<Rightarrow> (Inl (err, None), s3)
                       | (None, s3) \<Rightarrow> open_loop st ref parts resolved m rest s3)
                  else (Inr (Some (d, sts, acceptableEncodingName, encodedPath)), s2)))"

text \<open>The \<open>return\<close> at the end of \<open>open\<close>, and the one for a directory to list.\<close>

definition fileInfo ::
  "jsstring list \<Rightarrow> jsstring \<Rightarrow> nat \<Rightarrow> Stats \<Rightarrow> jsstring option \<Rightarrow> jsstring \<Rightarrow> StorageInfo" where
  "fileInfo parts resolved d sts vary_value encoding =
     \<lparr> attachedData = \<lparr> pathParts = parts, resolvedPath = resolved, fd = d, stats = sts \<rparr>,
       fileName = (if parts = [] then None else Some (last parts)),
       mtimeMs = Some (stats_mtimeMs sts),
       size_bytes = Some (stats_size sts),
       vary = vary_value,
       contentEncoding = Some encoding,
       mimeType = None,
       mimeTypeCharset = None \<rparr>"

definition directoryInfo :: "jsstring list \<Rightarrow> jsstring \<Rightarrow> nat \<Rightarrow> Stats \<Rightarrow> StorageInfo" where
  "directoryInfo parts resolved d sts =
     \<lparr> attachedData = \<lparr> pathParts = parts, resolvedPath = resolved, fd = d, stats = sts \<rparr>,
       fileName = Some ((if 1 < length parts then last parts else js ''_'') @ js ''.html''),
       mtimeMs = None,
       size_bytes = None,
       vary = None,
       contentEncoding = None,
       mimeType = Some (js ''text/html''),
       mimeTypeCharset = Some (js ''UTF-8'') \<rparr>"

text \<open>
  The \<open>try\<close> block of \<open>open\<close>, followed by the final \<open>return\<close>: the storage information,
  or the error thrown with the value of \<open>fd\<close> at that moment.
\<close>

definition open_try ::
  "'w FileSystemStorage \<Rightarrow> FilePath \<Rightarrow> jsstring list \<Rightarrow> bool \<Rightarrow> jsstring
   \<Rightarrow> StorageRequestHeaders \<Rightarrow> 'w io \<Rightarrow> (error \<times> nat option + StorageInfo) \<times> 'w io" where
  "open_try st ref parts haveTrailingSlash resolved requestHeaders s =
     (let selectedEncodingMapping =
            (case contentEncodingMappings st of
               Some encodingsMappings \<Rightarrow>
                 if \<not> haveTrailingSlash
                 then find (\<lambda>encodingMapping. test (matcher encodingMapping) resolved)
                        encodingsMappings
                 else None
             | None \<Rightarrow> None)
      in case selectedEncodingMapping of
           Some mapping \<Rightarrow>
             (let acceptableEncodings =
                    acceptEncodings (platform st) (accept_encoding requestHeaders)
                      (encodingPreferences mapping) (identityEncodingPreference mapping)
              in case open_loop st ref parts resolved (matcher mapping) acceptableEncodings s of
                   (Inl thrown, s1) \<Rightarrow> (Inl thrown, s1)
                 | (Inr None, s1) \<Rightarrow> (Inl (DoesNotExistError ref parts resolved, None), s1)
                 | (Inr (Some (d, sts, encoding, encodedPath)), s1) \<Rightarrow>
                     (Inr (fileInfo parts encodedPath d sts (Some (js ''Accept-Encoding'')) encoding),
                      s1))
         | None \<Rightarrow>
             (case safeOpen st resolved s of
                (None, s1) \<Rightarrow> (Inl (DoesNotExistError ref parts resolved, None), s1)
              | (Some d, s1) \<Rightarrow>
                  (case stat st d resolved s1 of
                     (Inl err, s2) \<Rightarrow> (Inl (err, Some d), s2)
                   | (Inr sts, s2) \<Rightarrow>
                       if isDirectory sts
                       then
                         if \<not> haveTrailingSlash
                         then (Inl (IsDirectoryError ref parts resolved, Some d), s2)
                         else
                           (case earlyClose st d resolved s2 of
                              (Some err, s3) \<Rightarrow> (Inl (err, Some d), s3)
                            | (None, s3) \<Rightarrow> (Inr (directoryInfo parts resolved d sts), s3))
                       else if haveTrailingSlash
                       then (Inl (TrailingSlashError ref (parts @ [[]]) parts, Some d), s2)
                       else (Inr (fileInfo parts resolved d sts None (js ''identity'')), s2))))"

text \<open>
  \<open>open\<close>: \<open>parsePath\<close>, \<open>join\<close>, the \<open>try\<close> block, and the \<open>catch\<close> block, which closes
  the descriptor in \<open>fd\<close>, if any, before it throws the error again.
\<close>

definition "open" ::
  "'w FileSystemStorage \<Rightarrow> FilePath \<Rightarrow> StorageRequestHeaders \<Rightarrow> 'w io
   \<Rightarrow> (error + StorageInfo) \<times> 'w io" where
  "open st ref requestHeaders s =
     (case parsePath st ref of
        Inl e \<Rightarrow> (Inl e, s)
      | Inr (parts, haveTrailingSlash) \<Rightarrow>
          (let resolved = join (platform st) (root st) parts
           in case open_try st ref parts haveTrailingSlash resolved requestHeaders s of
                (Inr info, s1) \<Rightarrow> (Inr info, s1)
              | (Inl (err, None), s1) \<Rightarrow> (Inl err, s1)
              | (Inl (err, Some d), s1) \<Rightarrow>
                  (case earlyClose st d resolved s1 of
                     (Some err2, s2) \<Rightarrow> (Inl err2, s2)
                   | (None, s2) \<Rightarrow> (Inl err, s2))))"

text \<open>\<open>close\<close>: \<open>fsClose\<close> on the descriptor of the storage information.\<close>

definition close :: "'w FileSystemStorage \<Rightarrow> StorageInfo \<Rightarrow> 'w io \<Rightarrow> error option \<times> 'w io" where
  "close st storageInfo s = fsClose st (fd (attachedData storageInfo)) s"


section \<open>A file system in memory\<close>

text \<open>
  An \<open>fs\<close> module for the examples: a table of files and directories by path, and a table
  of the open descriptors. A descriptor that is not open is refused with \<open>EBADF\<close>, as
  by the operating system.
\<close>

datatype node = File real real | Directory

record memfs =
  files :: "(jsstring \<times> node) list"
  descriptors :: "(nat \<times> jsstring) list"
  next_fd :: nat

definition mem_open :: "jsstring \<Rightarrow> memfs \<Rightarrow> nat option \<times> memfs" where
  "mem_open p w =
     (case map_of (files w) p of
        None \<Rightarrow> (None, w)
      | Some _ \<Rightarrow>
          (Some (next_fd w),
           w\<lparr>descriptors := (next_fd w, p) # descriptors w, next_fd := Suc (next_fd w)\<rparr>))"

definition node_stats :: "node \<Rightarrow> Stats" where
  "node_stats n =
     (case n of
        File m sz \<Rightarrow> \<lparr> isDirectory = False, stats_mtimeMs = m, stats_size = sz \<rparr>
      | Directory \<Rightarrow> \<lparr> isDirectory = True, stats_mtimeMs = 0, stats_size = 0 \<rparr>)"

definition mem_fstat :: "nat \<Rightarrow> memfs \<Rightarrow> (jsstring + Stats) \<times> memfs" where
  "mem_fstat d w =
     (case map_of (descriptors w) d of
        None \<Rightarrow> (Inl (js ''EBADF''), w)
      | Some p \<Rightarrow>
          (case map_of (files w) p of
             None \<Rightarrow> (Inl (js ''EBADF''), w)
           | Some n \<Rightarrow> (Inr (node_stats n), w)))"

definition mem_close :: "nat \<Rightarrow> memfs \<Rightarrow> jsstring option \<times> memfs" where
  "mem_close d w =
     (if map_of (descriptors w) d = None then (Some (js ''EBADF''), w)
      else (None, w\<lparr>descriptors := filter (\<lambda>(e, _). e \<noteq> d) (descriptors w)\<rparr>))"

definition memfs_module :: "memfs FSModule" where
  "memfs_module = \<lparr> fs_open = mem_open, fs_fstat = mem_fstat, fs_close = mem_close \<rparr>"

text \<open>A \<open>join\<close> for the examples: the root, then each non-empty part after a slash.\<close>

definition join_slash :: "jsstring \<Rightarrow> jsstring list \<Rightarrow> jsstring" where
  "join_slash r parts = r @ concat (map ((#) (cu CHR ''/'')) (filter (\<lambda>p. p \<noteq> []) parts))"


text \<open>
  A matcher for the examples, \<open>/^(.+\.json)$/\<close>: it matches the paths that end in
  \<open>.json\<close>, and the whole path is then both the match and its first group, which is what
  \<open>$&\<close> and \<open>$1\<close> stand for in a replacement.
\<close>

definition ends_with :: "jsstring \<Rightarrow> jsstring \<Rightarrow> bool" where
  "ends_with s suffix = (length suffix \<le> length s \<and> drop (length s - length suffix) s = suffix)"

fun expand :: "jsstring \<Rightarrow> jsstring \<Rightarrow> jsstring" where
  "expand m [] = []"
| "expand m [c] = [c]"
| "expand m (c # d # cs) =
     (if c = cu CHR ''$'' \<and> (d = cu CHR ''1'' \<or> d = cu CHR ''&'') then m @ expand m cs
      else c # expand m (d # cs))"

definition json_matcher :: RegExp where
  "json_matcher =
     \<lparr> test = (\<lambda>s. ends_with s (js ''.json'') \<and> length (js ''.json'') < length s),
       replace = (\<lambda>s replacement.
          if ends_with s (js ''.json'') \<and> length (js ''.json'') < length s
          then expand s replacement else s) \<rparr>"

text \<open>The platform of the examples; its \<open>acceptEncodings\<close> accepts every preference.\<close>

definition demo_platform :: platform where
  "demo_platform =
     \<lparr> join = join_slash, RegExp_new = (\<lambda>src. None), acceptEncodings = (\<lambda>header prefs ident. prefs) \<rparr>"

definition json_mapping :: ContentEncodingMapping where
  "json_mapping =
     \<lparr> matcher_option = MatcherRegExp json_matcher,
       encodings = [\<lparr> name = js ''br'', path = js ''$1.br'' \<rparr>,
                    \<lparr> name = js ''gzip'', path = js ''$1.gz'' \<rparr>] \<rparr>"

definition demo_options :: "memfs FileSystemStorageOptions" where
  "demo_options =
     \<lparr> opt_contentEncodingMappings = Some [json_mapping],
       opt_ignorePattern = IgnoreUndefined,
       opt_onDirectory = None,
       opt_fsModule = memfs_module \<rparr>"


text \<open>The storage that the constructor builds from these options.\<close>

definition demo_storage :: "memfs FileSystemStorage" where
  "demo_storage =
     \<lparr> root = js ''/srv'',
       contentEncodingMappings = Some
         [\<lparr> matcher = json_matcher,
            encodingPreferences =
              [(js ''br'', \<lparr> pref_path = js ''$1.br'', order = 0 \<rparr>),
               (js ''gzip'', \<lparr> pref_path = js ''$1.gz'', order = 1 \<rparr>),
               (js ''identity'', \<lparr> pref_path = js ''$&'', order = 2 \<rparr>)],
            identityEncodingPreference = \<lparr> pref_path = js ''$&'', order = 2 \<rparr> \<rparr>],
       ignorePattern = Some leading_dot,
       onDirectory = Off,
       fsModule = memfs_module,
       platform = demo_platform \<rparr>"


text \<open>
  A world for the examples: under \<open>/srv\<close>, two files, a directory, and a JSON file with
  a gzip variant and a directory at the place of its brotli variant.
\<close>

definition demo_world :: "memfs io" where
  "demo_world =
     \<lparr> world =
         \<lparr> files =
             [(js ''/srv'', Directory),
              (js ''/srv/hello.txt'', File 1000 5),
              (js ''/srv/index.html'', File 1000 20),
              (js ''/srv/users'', Directory),
              (js ''/srv/data.json'', File 2000 300),
              (js ''/srv/data.json.br'', Directory),
              (js ''/srv/data.json.gz'', File 2000 100)],
           descriptors = [],
           next_fd = 3 \<rparr>,
       calls = [] \<rparr>"

definition no_headers :: StorageRequestHeaders where
  "no_headers = \<lparr> accept_encoding = None \<rparr>"


section \<open>Released descriptors\<close>

text \<open>
  In a list of calls to the \<open>fs\<close> module, every descriptor that was opened is closed
  later on.
\<close>

fun released :: "fs_call list \<Rightarrow> bool" where
  "released [] = True"
| "released (Opened d # cs) = (Closed d \<in> set cs \<and> released cs)"
| "released (Closed d # cs) = released cs"

text \<open>
  The same, but for the descriptor still held in the variable \<open>fd\<close>, which the \<open>catch\<close>
  block is about to close.
\<close>

definition pending :: "nat option \<Rightarrow> fs_call list \<Rightarrow> bool" where
  "pending fdv new = (case fdv of None \<Rightarrow> released new | Some d \<Rightarrow> released (new @ [Closed d]))"



section \<open>Selection of a variant, after the claim\<close>





section \<open>The acceptable encodings, after the specification\<close>
















section \<open>The canonical form, after the claim\<close>

text \<open>
  Following the words of the claim: the canonical form of a string reference as the
  decoded and re-encoded pathname plus search. Each segment of the pathname of the URL
  is decoded by \<open>decodeURIComponent\<close> and encoded again, as \<open>encodeURIComponent\<close> does:
  every character but the letters, the digits and \<open>- _ . ! ~ * ' ( )\<close> is written as
  the escapes of its UTF-8 bytes. The result is \<open>None\<close> when a segment does not decode.
\<close>

definition uri_unreserved :: "nat \<Rightarrow> bool" where
  "uri_unreserved cp =
     ((0x61 \<le> cp \<and> cp \<le> 0x7A) \<or> (0x41 \<le> cp \<and> cp \<le> 0x5A) \<or> (0x30 \<le> cp \<and> cp \<le> 0x39)
      \<or> cp \<in> {0x2D, 0x5F, 0x2E, 0x21, 0x7E, 0x2A, 0x27, 0x28, 0x29})"

definition reencoded :: "jsstring \<Rightarrow> jsstring" where
  "reencoded seg = concat (map (percent_encode (\<lambda>cp. \<not> uri_unreserved cp)) (scalar_values seg))"

fun join_with :: "code_unit \<Rightarrow> jsstring list \<Rightarrow> jsstring" where
  "join_with sep [] = []"
| "join_with sep [x] = x"
| "join_with sep (x # y # ys) = x @ sep # join_with sep (y # ys)"

definition decoded_reencoded :: "jsstring \<Rightarrow> jsstring option" where
  "decoded_reencoded p =
     (case decode_all (split_on (cu CHR ''/'') (pathname (URL_localhost p))) of
        None \<Rightarrow> None
      | Some parts \<Rightarrow>
          Some (join_with (cu CHR ''/'') (map reencoded parts) @ search (URL_localhost p)))"



section \<open>The reference in an error\<close>

text \<open>
  The errors of the storage carry the reference they were thrown for. This puts another
  reference in its place, so that the outcomes for two references can be compared.
\<close>

fun with_reference :: "FilePath \<Rightarrow> error \<Rightarrow> error" where
  "with_reference r (StorageError _) = StorageError r"
| "with_reference r (MalformedPathError _ parts) = MalformedPathError r parts"
| "with_reference r (NotNormalizedError _ parts normalized) = NotNormalizedError r parts normalized"
| "with_reference r (InvalidPathError _ parts) = InvalidPathError r parts"
| "with_reference r (ConsecutiveSlashesError _ parts) = ConsecutiveSlashesError r parts"
| "with_reference r (ForbiddenCharacterError _ parts) = ForbiddenCharacterError r parts"
| "with_reference r (IgnoredFileError _ parts) = IgnoredFileError r parts"
| "with_reference r (TrailingSlashError _ parts untrailed) = TrailingSlashError r parts untrailed"
| "with_reference r (IsDirectoryError _ parts resolved) = IsDirectoryError r parts resolved"
| "with_reference r (DoesNotExistError _ parts resolved) = DoesNotExistError r parts resolved"
| "with_reference r (ErrnoException code) = ErrnoException code"
| "with_reference r (SyntaxError message) = SyntaxError message"


section \<open>A storage that serves \<open>index.html\<close> and ignores it\<close>

text \<open>
  The pattern \<open>/^index\.html$/u\<close>, and the storage of the examples with this pattern as
  \<open>ignorePattern\<close> and with \<open>onDirectory: 'serve-index'\<close>.
\<close>

definition index_html_pattern :: pattern where
  "index_html_pattern v = (v = js ''index.html'')"

definition index_storage :: "memfs FileSystemStorage" where
  "index_storage = demo_storage\<lparr>ignorePattern := Some index_html_pattern, onDirectory := ServeIndex\<rparr>"

section \<open>Evaluation\<close>

lemma escapes_unfold:
  "escapes k s =
     (if k = 0 then Some []
      else case pct_escape s of
             None \<Rightarrow> None
           | Some b \<Rightarrow> map_option ((#) b) (escapes (k - 1) (drop 3 s)))"
  by (cases k) (auto split: option.splits)

lemmas decode_eval =
  escape_byte_def hex_value_def leading_ones_def continuation_def utf16_def
  pct_escape_def escapes_unfold

lemmas url_eval =
  is_high_surrogate_def is_low_surrogate_def scalar_value_def utf8_encode_def hex_digit_def
  percent_byte_def c0_control_set_def query_set_def special_query_set_def path_set_def
  percent_encode_def ascii_lower_def single_dot_def double_dot_def slash_segment_def
  end_segment_def query_state_def strip_trailing_def remove_tab_newline_def URL_localhost_def

lemmas parse_eval =
  decode_eval url_eval startsWith_def forbidden_unit_def FORBIDDEN_CHARACTERS_def
  dot_or_dotdot_def leading_dot_def referenceParts_def parsePath_def Let_def

lemmas fs_eval =
  mem_open_def mem_fstat_def mem_close_def memfs_module_def node_stats_def join_slash_def
  safeOpen_def stat_def fsClose_def earlyClose_def

lemmas open_eval =
  parse_eval fs_eval open_try_def open_def close_def fileInfo_def directoryInfo_def
  demo_platform_def json_matcher_def ends_with_def demo_storage_def demo_world_def
  no_headers_def




section \<open>The identity preference\<close>

lemma map_of_fold_update:
  "map_of (fold (\<lambda>(k, v) m. AList.update k v m) es al) = map_of al ++ map_of (rev es)"
proof (induction es arbitrary: al)
  case Nil
  then show ?case by simp
next
  case (Cons e es)
  obtain k v where e: "e = (k, v)" by (cases e)
  show ?case
    by (auto simp add: e Cons.IH update_conv' fun_eq_iff map_add_def split: option.splits)
qed

lemma map_of_Map_new: "map_of (Map_new es) = map_of (rev es)"
  by (simp add: Map_new_def map_of_fold_update)

lemma update_absent: "k \<notin> fst ` set al \<Longrightarrow> AList.update k v al = al @ [(k, v)]"
  by (induction al) auto

text \<open>In a \<open>Map\<close> built from entries, a key holds the value of its last entry.\<close>

lemma map_of_rev_last:
  "i < length xs \<Longrightarrow> fst (xs ! i) = k \<Longrightarrow> \<forall>j. i < j \<and> j < length xs \<longrightarrow> fst (xs ! j) \<noteq> k
   \<Longrightarrow> map_of (rev xs) k = Some (snd (xs ! i))"
proof (induction xs rule: rev_induct)
  case Nil
  then show ?case by simp
next
  case (snoc x xs)
  show ?case
  proof (cases "i = length xs")
    case True
    with snoc.prems show ?thesis by (cases x) auto
  next
    case False
    with snoc.prems have i: "i < length xs" by simp
    from snoc.prems(3) i have "fst ((xs @ [x]) ! length xs) \<noteq> k" by auto
    then have x: "fst x \<noteq> k" by simp
    have "\<forall>j. i < j \<and> j < length xs \<longrightarrow> fst (xs ! j) \<noteq> k"
    proof (intro allI impI)
      fix j assume j: "i < j \<and> j < length xs"
      with snoc.prems(3) have "fst ((xs @ [x]) ! j) \<noteq> k" by auto
      with j show "fst (xs ! j) \<noteq> k" by (simp add: nth_append)
    qed
    with snoc.IH i snoc.prems(2) have "map_of (rev xs) k = Some (snd (xs ! i))"
      by (simp add: nth_append)
    with x i show ?thesis by (cases x) (auto simp: nth_append)
  qed
qed

lemma fst_preferenceEntries: "map fst (preferenceEntries encs) = map name encs"
  by (simp add: preferenceEntries_def list_eq_iff_nth_eq nth_enumerate_eq)

lemma nth_preferenceEntries:
  "i < length encs \<Longrightarrow>
   preferenceEntries encs ! i = (name (encs ! i), \<lparr> pref_path = path (encs ! i), order = i \<rparr>)"
  by (simp add: preferenceEntries_def nth_enumerate_eq)

lemma declared_None:
  "map_of (Map_new (preferenceEntries encs)) k = None \<longleftrightarrow> k \<notin> name ` set encs"
proof -
  have "fst ` set (preferenceEntries encs) = name ` set encs"
    using fst_preferenceEntries [of encs] by (metis image_set)
  then show ?thesis by (simp add: map_of_Map_new map_of_eq_None_iff)
qed

lemma declared_last:
  assumes "i < length encs" "name (encs ! i) = k"
    "\<forall>j. i < j \<and> j < length encs \<longrightarrow> name (encs ! j) \<noteq> k"
  shows "map_of (Map_new (preferenceEntries encs)) k = Some \<lparr> pref_path = path (encs ! i), order = i \<rparr>"
proof -
  have len: "length (preferenceEntries encs) = length encs"
    by (simp add: preferenceEntries_def)
  have "map_of (rev (preferenceEntries encs)) k = Some (snd (preferenceEntries encs ! i))"
    using assms by (intro map_of_rev_last) (simp_all add: len nth_preferenceEntries)
  then show ?thesis using assms(1) by (simp add: map_of_Map_new nth_preferenceEntries)
qed

lemma normalizeMapping_identity:
  assumes "normalizeMapping pf cfg = Inr m"
  shows "(js ''identity'' \<notin> name ` set (encodings cfg) \<longrightarrow>
            identityEncodingPreference m = \<lparr> pref_path = js ''$&'', order = length (encodings cfg) \<rparr>
            \<and> encodingPreferences m =
                Map_new (preferenceEntries (encodings cfg)) @ [(js ''identity'', identityEncodingPreference m)])
       \<and> (js ''identity'' \<in> name ` set (encodings cfg) \<longrightarrow>
            encodingPreferences m = Map_new (preferenceEntries (encodings cfg))
            \<and> (\<forall>i < length (encodings cfg).
                  name (encodings cfg ! i) = js ''identity''
                  \<and> (\<forall>j. i < j \<and> j < length (encodings cfg) \<longrightarrow> name (encodings cfg ! j) \<noteq> js ''identity'')
                  \<longrightarrow> identityEncodingPreference m = \<lparr> pref_path = path (encodings cfg ! i), order = i \<rparr>))
       \<and> map_of (encodingPreferences m) (js ''identity'') = Some (identityEncodingPreference m)"
proof (cases "js ''identity'' \<in> name ` set (encodings cfg)")
  case True
  then obtain p where p: "map_of (Map_new (preferenceEntries (encodings cfg))) (js ''identity'') = Some p"
    using declared_None [of "encodings cfg" "js ''identity''"]
    by (cases "map_of (Map_new (preferenceEntries (encodings cfg))) (js ''identity'')") auto
  from assms p have m: "encodingPreferences m = Map_new (preferenceEntries (encodings cfg))"
    "identityEncodingPreference m = p"
    by (auto simp: normalizeMapping_def Let_def split: option.splits Matcher.splits)
  show ?thesis using True m p declared_last [of _ "encodings cfg" "js ''identity''"] by auto
next
  case False
  then have n: "map_of (Map_new (preferenceEntries (encodings cfg))) (js ''identity'') = None"
    using declared_None [of "encodings cfg" "js ''identity''"] by simp
  have absent: "js ''identity'' \<notin> fst ` set (Map_new (preferenceEntries (encodings cfg)))"
    using n by (simp add: map_of_eq_None_iff)
  from assms n have m: "encodingPreferences m =
      AList.update (js ''identity'') \<lparr> pref_path = js ''$&'', order = length (encodings cfg) \<rparr>
        (Map_new (preferenceEntries (encodings cfg)))"
    "identityEncodingPreference m = \<lparr> pref_path = js ''$&'', order = length (encodings cfg) \<rparr>"
    by (auto simp: normalizeMapping_def Let_def split: option.splits Matcher.splits)
  show ?thesis using False m absent n by (simp add: update_absent map_add_def)
qed

lemma map_throwing_Inr:
  "map_throwing f xs = Inr ys \<Longrightarrow> list_all2 (\<lambda>x y. f x = Inr y) xs ys"
  by (induction xs arbitrary: ys) (auto split: sum.splits)

text \<open>
  Claim C9. When the constructor returns a storage for options with content-encoding
  mappings, the storage has one normalized mapping for each configured one, in order.
  If the configured encodings name no \<open>identity\<close>, the preference map is the map of the
  declared entries followed by an \<open>identity\<close> entry with the replacement \<open>$&\<close> and the
  order \<open>length encodings\<close>, which is also \<open>identityEncodingPreference\<close>. If \<open>identity\<close> is
  declared, the preference map is the map of the declared entries and nothing else, and
  \<open>identityEncodingPreference\<close> is the declared entry of \<open>identity\<close> with its own
  replacement and position (the last one, should the name be declared twice). In both
  cases \<open>identity\<close> is a key of the preference map.
\<close>

theorem identity_preference_synthesis:
  assumes "FileSystemStorage_new pf root_dir opts = Inr st"
    and "opt_contentEncodingMappings opts = Some cfgs"
  shows "\<exists>ms. contentEncodingMappings st = Some ms \<and>
    list_all2 (\<lambda>cfg m.
        (js ''identity'' \<notin> name ` set (encodings cfg) \<longrightarrow>
            identityEncodingPreference m = \<lparr> pref_path = js ''$&'', order = length (encodings cfg) \<rparr>
            \<and> encodingPreferences m =
                Map_new (preferenceEntries (encodings cfg)) @ [(js ''identity'', identityEncodingPreference m)])
       \<and> (js ''identity'' \<in> name ` set (encodings cfg) \<longrightarrow>
            encodingPreferences m = Map_new (preferenceEntries (encodings cfg))
            \<and> (\<forall>i < length (encodings cfg).
                  name (encodings cfg ! i) = js ''identity''
                  \<and> (\<forall>j. i < j \<and> j < length (encodings cfg) \<longrightarrow> name (encodings cfg ! j) \<noteq> js ''identity'')
                  \<longrightarrow> identityEncodingPreference m = \<lparr> pref_path = path (encodings cfg ! i), order = i \<rparr>))
       \<and> map_of (encodingPreferences m) (js ''identity'') = Some (identityEncodingPreference m))
      cfgs ms"
proof -
  from assms obtain x where x: "map_sum id Some (map_throwing (normalizeMapping pf) cfgs) = Inr x"
    and stx: "contentEncodingMappings st = x"
    by (auto simp: FileSystemStorage_new_def split: sum.splits option.splits IgnoreOption.splits)
  from x obtain ms where ms: "map_throwing (normalizeMapping pf) cfgs = Inr ms" and "x = Some ms"
    by (cases "map_throwing (normalizeMapping pf) cfgs") auto
  with stx have st: "contentEncodingMappings st = Some ms" by simp
  from ms have "list_all2 (\<lambda>cfg m. normalizeMapping pf cfg = Inr m) cfgs ms"
    by (rule map_throwing_Inr)
  then show ?thesis
    using st by (auto elim!: list_all2_mono dest: normalizeMapping_identity)
qed

theorem identity_preference_synthesis_witness:
  "FileSystemStorage_new demo_platform (js ''/srv'') demo_options = Inr demo_storage
   \<and> opt_contentEncodingMappings demo_options = Some [json_mapping]
   \<and> js ''identity'' \<notin> name ` set (encodings json_mapping)
   \<and> map (map_option order \<circ> map_of (encodingPreferences (hd (the (contentEncodingMappings demo_storage)))))
         [js ''br'', js ''gzip'', js ''identity''] = [Some 0, Some 1, Some 2]"
  using identity_preference_synthesis [of demo_platform "js ''/srv''" demo_options demo_storage "[json_mapping]"]
  by (simp add: FileSystemStorage_new_def demo_options_def demo_storage_def json_mapping_def
      normalizeMapping_def Map_new_def preferenceEntries_def enumerate_eq_zip Let_def)


section \<open>The checks of \<open>parsePath\<close>\<close>

lemma indexOf_from_Some:
  "indexOf_from xs v n = Some i \<Longrightarrow>
     n \<le> i \<and> i < length xs \<and> xs ! i = v \<and> (\<forall>j. n \<le> j \<and> j < i \<longrightarrow> xs ! j \<noteq> v)"
proof (induction xs v n arbitrary: i rule: indexOf_from.induct)
  case (1 v n)
  then show ?case by simp
next
  case (2 x xs v)
  show ?case
  proof (cases "x = v")
    case True
    with 2 show ?thesis by simp
  next
    case False
    with "2.prems" obtain k where k: "indexOf_from xs v 0 = Some k" "i = Suc k" by auto
    from "2.IH" [OF False k(1)] have ih: "k < length xs" "xs ! k = v" "\<forall>j. j < k \<longrightarrow> xs ! j \<noteq> v"
      by auto
    show ?thesis using k ih False by (auto simp: nth_Cons split: nat.splits)
  qed
next
  case (3 x xs v n)
  from "3.prems" obtain k where k: "indexOf_from xs v n = Some k" "i = Suc k" by auto
  from "3.IH" [OF k(1)] show ?case using k by (auto simp: nth_Cons split: nat.splits)
qed

lemma indexOf_from_None:
  "indexOf_from xs v n = None \<longleftrightarrow> (\<forall>j. n \<le> j \<and> j < length xs \<longrightarrow> xs ! j \<noteq> v)"
proof (induction xs v n rule: indexOf_from.induct)
  case (1 v n)
  then show ?case by simp
next
  case (2 x xs v)
  show ?case
  proof (cases "x = v")
    case True
    then show ?thesis by auto
  next
    case False
    have "(\<forall>j. j < length xs \<longrightarrow> xs ! j \<noteq> v) \<longleftrightarrow> (\<forall>j. j < Suc (length xs) \<longrightarrow> (x # xs) ! j \<noteq> v)"
    proof
      assume a: "\<forall>j. j < length xs \<longrightarrow> xs ! j \<noteq> v"
      show "\<forall>j. j < Suc (length xs) \<longrightarrow> (x # xs) ! j \<noteq> v"
      proof (intro allI impI)
        fix j assume "j < Suc (length xs)"
        then show "(x # xs) ! j \<noteq> v" using a False by (cases j) auto
      qed
    next
      assume a: "\<forall>j. j < Suc (length xs) \<longrightarrow> (x # xs) ! j \<noteq> v"
      show "\<forall>j. j < length xs \<longrightarrow> xs ! j \<noteq> v"
      proof (intro allI impI)
        fix j assume "j < length xs"
        then have "(x # xs) ! Suc j \<noteq> v" using a by blast
        then show "xs ! j \<noteq> v" by simp
      qed
    qed
    with 2 False show ?thesis by simp
  qed
next
  case (3 x xs v n)
  have "(\<forall>j. n \<le> j \<and> j < length xs \<longrightarrow> xs ! j \<noteq> v)
        \<longleftrightarrow> (\<forall>j. Suc n \<le> j \<and> j < Suc (length xs) \<longrightarrow> (x # xs) ! j \<noteq> v)"
  proof
    assume a: "\<forall>j. n \<le> j \<and> j < length xs \<longrightarrow> xs ! j \<noteq> v"
    show "\<forall>j. Suc n \<le> j \<and> j < Suc (length xs) \<longrightarrow> (x # xs) ! j \<noteq> v"
    proof (intro allI impI)
      fix j assume "Suc n \<le> j \<and> j < Suc (length xs)"
      then show "(x # xs) ! j \<noteq> v" using a by (cases j) auto
    qed
  next
    assume a: "\<forall>j. Suc n \<le> j \<and> j < Suc (length xs) \<longrightarrow> (x # xs) ! j \<noteq> v"
    show "\<forall>j. n \<le> j \<and> j < length xs \<longrightarrow> xs ! j \<noteq> v"
    proof (intro allI impI)
      fix j assume "n \<le> j \<and> j < length xs"
      then have "Suc n \<le> Suc j \<and> Suc j < Suc (length xs)" by simp
      with a have "(x # xs) ! Suc j \<noteq> v" by blast
      then show "xs ! j \<noteq> v" by simp
    qed
  qed
  with 3 show ?case by simp
qed


lemma FORBIDDEN_CHARACTERS_Nil: "\<not> FORBIDDEN_CHARACTERS []"
  by (simp add: FORBIDDEN_CHARACTERS_def)

lemma find_forbidden_truthy:
  "(case find FORBIDDEN_CHARACTERS parts of None \<Rightarrow> False | Some v \<Rightarrow> v \<noteq> [])
     \<longleftrightarrow> list_ex FORBIDDEN_CHARACTERS parts"
proof (cases "find FORBIDDEN_CHARACTERS parts")
  case None
  then have "\<not> list_ex FORBIDDEN_CHARACTERS parts" by (auto simp: find_None_iff list_ex_iff)
  then show ?thesis using None by simp
next
  case (Some v)
  then have "FORBIDDEN_CHARACTERS v" "v \<in> set parts" by (auto simp: find_Some_iff)
  then have "list_ex FORBIDDEN_CHARACTERS parts" by (auto simp: list_ex_iff)
  moreover from \<open>FORBIDDEN_CHARACTERS v\<close> have "v \<noteq> []" using FORBIDDEN_CHARACTERS_Nil by auto
  ultimately show ?thesis using Some by simp
qed

lemma find_ignore: "find ig parts \<noteq> None \<longleftrightarrow> list_ex ig parts"
  by (auto simp add: find_None_iff list_ex_iff)

text \<open>The checks of \<open>parsePath\<close> after the parts are known, one at a time.\<close>

lemma parsePath_parts:
  assumes "referenceParts ref = Inr parts"
  shows "parsePath st ref =
     (if \<exists>i. 0 < i \<and> i < length parts - 1 \<and> parts ! i = []
      then Inl (ConsecutiveSlashesError ref parts)
      else if list_ex FORBIDDEN_CHARACTERS parts then Inl (ForbiddenCharacterError ref parts)
      else if (\<exists>ig. ignorePattern st = Some ig \<and> list_ex ig parts)
      then Inl (IgnoredFileError ref parts)
      else if 1 < length parts \<and> last parts = []
      then (case onDirectory st of
              ListFiles \<Rightarrow> Inr (butlast parts, True)
            | ServeIndex \<Rightarrow> Inr (butlast parts @ [js ''index.html''], False)
            | Off \<Rightarrow> Inl (TrailingSlashError ref parts (butlast parts)))
      else Inr (parts, False))"
proof -
  let ?idx = "indexOf_from parts [] 1"
  have consec: "(?idx \<noteq> None \<and> ?idx \<noteq> Some (length parts - 1))
       \<longleftrightarrow> (\<exists>i. 0 < i \<and> i < length parts - 1 \<and> parts ! i = [])"
  proof
    assume a: "?idx \<noteq> None \<and> ?idx \<noteq> Some (length parts - 1)"
    then obtain i where i: "?idx = Some i" by auto
    from indexOf_from_Some [OF i] a i show "\<exists>i. 0 < i \<and> i < length parts - 1 \<and> parts ! i = []"
      by (intro exI [of _ i]) auto
  next
    assume "\<exists>i. 0 < i \<and> i < length parts - 1 \<and> parts ! i = []"
    then obtain i where i: "0 < i" "i < length parts - 1" "parts ! i = []" by auto
    then have "1 \<le> i \<and> i < length parts \<and> parts ! i = []" by auto
    then have "?idx \<noteq> None" unfolding indexOf_from_None by blast
    then obtain k where k: "?idx = Some k" by auto
    have "\<not> i < k" using indexOf_from_Some [OF k] i by auto
    with i k show "?idx \<noteq> None \<and> ?idx \<noteq> Some (length parts - 1)" by auto
  qed
  have trail: "?idx \<noteq> None \<longleftrightarrow> 1 < length parts \<and> last parts = []"
    if "\<not> (\<exists>i. 0 < i \<and> i < length parts - 1 \<and> parts ! i = [])"
  proof
    assume "?idx \<noteq> None"
    then obtain k where k: "?idx = Some k" by auto
    from indexOf_from_Some [OF k] have kk: "1 \<le> k" "k < length parts" "parts ! k = []" by auto
    have "\<not> k < length parts - 1" using that kk by auto
    with kk have "k = length parts - 1" by arith
    with kk show "1 < length parts \<and> last parts = []"
      by (cases parts rule: rev_cases) (auto simp: nth_append)
  next
    assume a: "1 < length parts \<and> last parts = []"
    then have "parts ! (length parts - 1) = []"
      by (cases parts rule: rev_cases) (auto simp: nth_append)
    with a show "?idx \<noteq> None" by (auto simp: indexOf_from_None intro!: exI [of _ "length parts - 1"])
  qed
  have ig: "(case ignorePattern st of None \<Rightarrow> False | Some ignore \<Rightarrow> find ignore parts \<noteq> None)
      \<longleftrightarrow> (\<exists>ig. ignorePattern st = Some ig \<and> list_ex ig parts)"
    using find_ignore by (cases "ignorePattern st") auto
  have step: "parsePath st ref =
     (if ?idx \<noteq> None \<and> ?idx \<noteq> Some (length parts - 1)
      then Inl (ConsecutiveSlashesError ref parts)
      else if (case find FORBIDDEN_CHARACTERS parts of None \<Rightarrow> False | Some v \<Rightarrow> v \<noteq> [])
      then Inl (ForbiddenCharacterError ref parts)
      else if (case ignorePattern st of None \<Rightarrow> False | Some ignore \<Rightarrow> find ignore parts \<noteq> None)
      then Inl (IgnoredFileError ref parts)
      else if ?idx \<noteq> None
      then (case onDirectory st of
              ListFiles \<Rightarrow> Inr (butlast parts, True)
            | ServeIndex \<Rightarrow> Inr (butlast parts @ [js ''index.html''], False)
            | Off \<Rightarrow> Inl (TrailingSlashError ref parts (butlast parts)))
      else Inr (parts, False))"
    unfolding parsePath_def Let_def assms by (simp only: sum.case)
  show ?thesis
  proof (cases "\<exists>i. 0 < i \<and> i < length parts - 1 \<and> parts ! i = []")
    case True
    with consec show ?thesis by (simp add: step)
  next
    case False
    note t = trail [OF False]
    show ?thesis
      apply (subst step)
      apply (simp only: consec False if_False)
      apply (simp only: find_forbidden_truthy ig t)
      done
  qed
qed

text \<open>
  Claim C8, as stated, fails: the parts of a reference may hold an empty segment after
  the first position and before the last while \<open>parsePath\<close> throws another error, because
  the first statement of \<open>parsePath\<close> rejects the reference before the test on the empty
  segments is reached. The parts of the string \<open>//a/./b\<close> are \<open>['', '', 'a', 'b']\<close>, and
  the error is \<open>NotNormalizedError\<close>, which carries these parts; for the array
  \<open>['', '', '..', 'b']\<close> the error is \<open>InvalidPathError\<close>.
\<close>

theorem consecutive_slashes_rejected_counterexample:
  "parsePath demo_storage (PathString (js ''//a/./b''))
     = Inl (NotNormalizedError (PathString (js ''//a/./b'')) [[], [], js ''a'', js ''b'']
             (js ''//a/b''))
   \<and> [[], [], js ''a'', js ''b''] ! 1 = []
   \<and> (1::nat) < length [[], [], js ''a'', js ''b''] - 1
   \<and> parsePath demo_storage (PathArray [[], [], js ''..'', js ''b''])
     = Inl (InvalidPathError (PathArray [[], [], js ''..'', js ''b''])
             [[], [], js ''..'', js ''b''])
   \<and> [[], [], js ''..'', js ''b''] ! 1 = []
   \<and> (1::nat) < length [[], [], js ''..'', js ''b''] - 1"
  by (simp add: parse_eval demo_storage_def)

text \<open>
  Claim C8, amended. Take a reference that passes the first statement of \<open>parsePath\<close>: a
  string that starts with \<open>/\<close>, decodes and is normalized, or an array that starts with
  the empty string and holds no \<open>.\<close> or \<open>..\<close>; its parts are the decoded segments, or the
  array. If they hold an empty segment after the first position and before the last,
  \<open>parsePath\<close> throws \<open>ConsecutiveSlashesError\<close> (with the reference and the parts).
  Hence a reference that \<open>parsePath\<close> accepts has an empty segment after the leading one
  in the last position only.
\<close>

theorem consecutive_slashes_rejected:
  "(\<forall>parts. referenceParts ref = Inr parts
        \<and> (\<exists>i. 0 < i \<and> i < length parts - 1 \<and> parts ! i = [])
      \<longrightarrow> parsePath st ref = Inl (ConsecutiveSlashesError ref parts))
   \<and> (\<forall>accepted. parsePath st ref = Inr accepted
      \<longrightarrow> (\<exists>parts. referenceParts ref = Inr parts
            \<and> (\<forall>i. 0 < i \<and> i < length parts \<and> parts ! i = [] \<longrightarrow> i = length parts - 1)))"
proof (intro conjI allI impI)
  fix parts
  assume "referenceParts ref = Inr parts \<and> (\<exists>i. 0 < i \<and> i < length parts - 1 \<and> parts ! i = [])"
  then show "parsePath st ref = Inl (ConsecutiveSlashesError ref parts)"
    by (simp add: parsePath_parts)
next
  fix accepted
  assume a: "parsePath st ref = Inr accepted"
  then obtain parts where p: "referenceParts ref = Inr parts"
    by (cases "referenceParts ref") (auto simp: parsePath_def)
  from a have "\<not> (\<exists>i. 0 < i \<and> i < length parts - 1 \<and> parts ! i = [])"
    by (auto simp: parsePath_parts [OF p] split: if_splits)
  then have "\<forall>i. 0 < i \<and> i < length parts \<and> parts ! i = [] \<longrightarrow> \<not> i < length parts - 1"
    by blast
  then have "\<forall>i. 0 < i \<and> i < length parts \<and> parts ! i = [] \<longrightarrow> i = length parts - 1"
    by (auto simp: not_less)
  with p show "\<exists>parts. referenceParts ref = Inr parts
            \<and> (\<forall>i. 0 < i \<and> i < length parts \<and> parts ! i = [] \<longrightarrow> i = length parts - 1)"
    by blast
qed

theorem consecutive_slashes_rejected_witness:
  "referenceParts (PathString (js ''//todo@txt'')) = Inr [[], [], js ''todo@txt'']
   \<and> (0::nat) < 1 \<and> 1 < length [[], [], js ''todo@txt''] - 1 \<and> [[], [], js ''todo@txt''] ! 1 = []
   \<and> parsePath demo_storage (PathString (js ''//todo@txt''))
       = Inl (ConsecutiveSlashesError (PathString (js ''//todo@txt'')) [[], [], js ''todo@txt''])
   \<and> parsePath demo_storage (PathString (js ''/hello.txt'')) = Inr ([[], js ''hello.txt''], False)
   \<and> referenceParts (PathString (js ''/hello.txt'')) = Inr [[], js ''hello.txt'']"
proof -
  have p: "referenceParts (PathString (js ''//todo@txt'')) = Inr [[], [], js ''todo@txt'']"
    by (simp add: parse_eval)
  have e: "\<exists>i. 0 < i \<and> i < length [[], [], js ''todo@txt''] - 1 \<and> [[], [], js ''todo@txt''] ! i = []"
    by (rule exI [of _ 1]) simp
  have a: "parsePath demo_storage (PathString (js ''/hello.txt'')) = Inr ([[], js ''hello.txt''], False)"
    by (simp add: parse_eval demo_storage_def)
  have q: "referenceParts (PathString (js ''/hello.txt'')) = Inr [[], js ''hello.txt'']"
    by (simp add: parse_eval)
  from consecutive_slashes_rejected [of "PathString (js ''//todo@txt'')" demo_storage] p e
  have "parsePath demo_storage (PathString (js ''//todo@txt''))
       = Inl (ConsecutiveSlashesError (PathString (js ''//todo@txt'')) [[], [], js ''todo@txt''])"
    by blast
  with p a q show ?thesis by simp
qed

text \<open>
  Claim C5. A parsed reference is one whose parts have passed the checks that come
  before the trailing slash in \<open>parsePath\<close>: no consecutive slashes, no forbidden
  character, no ignored part. If its parts end in one empty segment, \<open>parsePath\<close>
  follows \<open>onDirectory\<close>: with \<open>false\<close> it throws \<open>TrailingSlashError\<close> with the parts
  without the last one; with \<open>'list-files'\<close> it returns the parts without the last one
  and \<open>haveTrailingSlash = true\<close>; with \<open>'serve-index'\<close> it returns the parts with
  \<open>index.html\<close> in place of the last one and \<open>haveTrailingSlash = false\<close>.
\<close>

theorem trailing_slash_handling:
  assumes "referenceParts ref = Inr parts"
    and "1 < length parts" and "last parts = []"
    and "\<forall>i. 0 < i \<and> i < length parts - 1 \<longrightarrow> parts ! i \<noteq> []"
    and "\<not> list_ex FORBIDDEN_CHARACTERS parts"
    and "\<forall>ig. ignorePattern st = Some ig \<longrightarrow> \<not> list_ex ig parts"
  shows "parsePath st ref =
     (case onDirectory st of
        Off \<Rightarrow> Inl (TrailingSlashError ref parts (butlast parts))
      | ListFiles \<Rightarrow> Inr (butlast parts, True)
      | ServeIndex \<Rightarrow> Inr (butlast parts @ [js ''index.html''], False))"
  using assms by (auto simp: parsePath_parts split: OnDirectory.splits)


theorem trailing_slash_handling_witness:
  "referenceParts (PathString (js ''/users/'')) = Inr [[], js ''users'', []]
   \<and> 1 < length [[], js ''users'', []::jsstring] \<and> last [[], js ''users'', []] = ([]::jsstring)
   \<and> \<not> list_ex FORBIDDEN_CHARACTERS [[], js ''users'', []]
   \<and> \<not> list_ex leading_dot [[], js ''users'', []]
   \<and> parsePath demo_storage (PathString (js ''/users/''))
       = Inl (TrailingSlashError (PathString (js ''/users/'')) [[], js ''users'', []] [[], js ''users''])
   \<and> parsePath (demo_storage\<lparr>onDirectory := ListFiles\<rparr>) (PathString (js ''/users/''))
       = Inr ([[], js ''users''], True)
   \<and> parsePath (demo_storage\<lparr>onDirectory := ServeIndex\<rparr>) (PathString (js ''/users/''))
       = Inr ([[], js ''users'', js ''index.html''], False)"
proof -
  have p: "referenceParts (PathString (js ''/users/'')) = Inr [[], js ''users'', []]"
    by (simp add: parse_eval)
  have l: "1 < length [[], js ''users'', []::jsstring]" "last [[], js ''users'', []] = ([]::jsstring)"
    by simp_all
  have i: "\<forall>i. 0 < i \<and> i < length [[], js ''users'', []::jsstring] - 1
             \<longrightarrow> [[], js ''users'', []] ! i \<noteq> ([]::jsstring)"
    by (auto simp: less_Suc_eq)
  have f: "\<not> list_ex FORBIDDEN_CHARACTERS [[], js ''users'', []]"
    by (simp add: FORBIDDEN_CHARACTERS_def forbidden_unit_def)
  have d: "\<not> list_ex leading_dot [[], js ''users'', []]"
    by (simp add: leading_dot_def startsWith_def)
  have g: "\<forall>ig. ignorePattern (demo_storage\<lparr>onDirectory := x\<rparr>) = Some ig
              \<longrightarrow> \<not> list_ex ig [[], js ''users'', []]" for x
    using d by (simp add: demo_storage_def)
  have g0: "\<forall>ig. ignorePattern demo_storage = Some ig \<longrightarrow> \<not> list_ex ig [[], js ''users'', []]"
    using d by (simp add: demo_storage_def)
  note t = trailing_slash_handling [OF p l i f]
  from t [OF g0] t [OF g [of ListFiles]] t [OF g [of ServeIndex]] p l f d
  show ?thesis by (simp add: demo_storage_def)
qed


section \<open>Descriptors of a failing \<open>open\<close>\<close>

lemma released_append: "released xs \<Longrightarrow> released ys \<Longrightarrow> released (xs @ ys)"
  by (induction xs rule: released.induct) auto




lemma pending_append: "released xs \<Longrightarrow> pending fdv ys \<Longrightarrow> pending fdv (xs @ ys)"
  by (auto simp: pending_def released_append split: option.splits)







section \<open>The \<open>Vary\<close> field\<close>

lemma find_Some_ex: "find P xs = Some x \<Longrightarrow> list_ex P xs"
  by (auto simp: find_Some_iff list_ex_iff)

lemma find_None_ex: "find P xs = None \<longleftrightarrow> \<not> list_ex P xs"
  by (auto simp: find_None_iff list_ex_iff)

text \<open>
  Claim C6. When \<open>open\<close> succeeds on a reference that \<open>parsePath\<close> turns into the parts
  and \<open>haveTrailingSlash\<close>, the storage information has \<open>vary = 'Accept-Encoding'\<close>
  exactly when there is no directory intent and the matcher of a configured
  content-encoding mapping matches the resolved path, whichever encoding is selected,
  \<open>identity\<close> included; when no mapping matches, none is configured, or a directory is
  meant, \<open>vary\<close> is undefined.
\<close>

theorem vary_on_mapping_match:
  assumes "open st ref hdrs s = (Inr info, s')"
    and "parsePath st ref = Inr (parts, trailing)"
  shows "vary info =
     (if \<not> trailing \<and> (\<exists>ms. contentEncodingMappings st = Some ms
            \<and> list_ex (\<lambda>m. test (matcher m) (join (platform st) (root st) parts)) ms)
      then Some (js ''Accept-Encoding'') else None)"
proof -
  let ?resolved = "join (platform st) (root st) parts"
  let ?sel = "case contentEncodingMappings st of
               Some encodingsMappings \<Rightarrow>
                 if \<not> trailing
                 then find (\<lambda>encodingMapping. test (matcher encodingMapping) ?resolved)
                        encodingsMappings
                 else None
             | None \<Rightarrow> None"
  have sel: "?sel \<noteq> None \<longleftrightarrow> \<not> trailing \<and> (\<exists>ms. contentEncodingMappings st = Some ms
            \<and> list_ex (\<lambda>m. test (matcher m) ?resolved) ms)"
    by (cases "contentEncodingMappings st"; cases trailing)
      (auto simp: find_None_iff list_ex_iff)
  from assms obtain s1 where t: "open_try st ref parts trailing ?resolved hdrs s = (Inr info, s1)"
    by (auto simp: open_def Let_def split: sum.splits prod.splits option.splits)
  show ?thesis
  proof (cases ?sel)
    case None
    with t have "vary info = None"
      by (auto simp: open_try_def Let_def fileInfo_def directoryInfo_def
          split: sum.splits prod.splits option.splits if_splits)
    with sel None show ?thesis by simp
  next
    case (Some mapping)
    with t have "vary info = Some (js ''Accept-Encoding'')"
      by (auto simp: open_try_def Let_def fileInfo_def split: sum.splits prod.splits option.splits)
    with sel Some show ?thesis by simp
  qed
qed


theorem vary_on_mapping_match_witness:
  "fst (open demo_storage (PathString (js ''/data.json'')) no_headers demo_world)
     = Inr (fileInfo [[], js ''data.json''] (js ''/srv/data.json.gz'') 4
             \<lparr> isDirectory = False, stats_mtimeMs = 2000, stats_size = 100 \<rparr>
             (Some (js ''Accept-Encoding'')) (js ''gzip''))
   \<and> parsePath demo_storage (PathString (js ''/data.json'')) = Inr ([[], js ''data.json''], False)
   \<and> test json_matcher (js ''/srv/data.json'')
   \<and> fst (open demo_storage (PathString (js ''/hello.txt'')) no_headers demo_world)
     = Inr (fileInfo [[], js ''hello.txt''] (js ''/srv/hello.txt'') 3
             \<lparr> isDirectory = False, stats_mtimeMs = 1000, stats_size = 5 \<rparr>
             None (js ''identity''))
   \<and> parsePath demo_storage (PathString (js ''/hello.txt'')) = Inr ([[], js ''hello.txt''], False)
   \<and> \<not> test json_matcher (js ''/srv/hello.txt'')"
proof -
  let ?j = "open demo_storage (PathString (js ''/data.json'')) no_headers demo_world"
  let ?h = "open demo_storage (PathString (js ''/hello.txt'')) no_headers demo_world"
  have oj: "fst ?j = Inr (fileInfo [[], js ''data.json''] (js ''/srv/data.json.gz'') 4
             \<lparr> isDirectory = False, stats_mtimeMs = 2000, stats_size = 100 \<rparr>
             (Some (js ''Accept-Encoding'')) (js ''gzip''))"
    by (simp add: open_eval)
  have pj: "parsePath demo_storage (PathString (js ''/data.json'')) = Inr ([[], js ''data.json''], False)"
    by (simp add: parse_eval demo_storage_def)
  have oh: "fst ?h = Inr (fileInfo [[], js ''hello.txt''] (js ''/srv/hello.txt'') 3
             \<lparr> isDirectory = False, stats_mtimeMs = 1000, stats_size = 5 \<rparr>
             None (js ''identity''))"
    by (simp add: open_eval)
  have ph: "parsePath demo_storage (PathString (js ''/hello.txt'')) = Inr ([[], js ''hello.txt''], False)"
    by (simp add: parse_eval demo_storage_def)
  from oj have ej: "?j = (Inr (fileInfo [[], js ''data.json''] (js ''/srv/data.json.gz'') 4
             \<lparr> isDirectory = False, stats_mtimeMs = 2000, stats_size = 100 \<rparr>
             (Some (js ''Accept-Encoding'')) (js ''gzip'')), snd ?j)"
    by (metis prod.collapse)
  from oh have eh: "?h = (Inr (fileInfo [[], js ''hello.txt''] (js ''/srv/hello.txt'') 3
             \<lparr> isDirectory = False, stats_mtimeMs = 1000, stats_size = 5 \<rparr>
             None (js ''identity'')), snd ?h)"
    by (metis prod.collapse)
  have tj: "test json_matcher (js ''/srv/data.json'')"
    by (simp add: json_matcher_def ends_with_def)
  have th: "\<not> test json_matcher (js ''/srv/hello.txt'')"
    by (simp add: json_matcher_def ends_with_def)
  note vary_on_mapping_match [OF ej pj] vary_on_mapping_match [OF eh ph]
  with oj pj oh ph tj th show ?thesis by simp
qed


section \<open>The variant that \<open>open\<close> selects\<close>








section \<open>Closing twice\<close>

text \<open>
  Claim C7, as stated, fails: after \<open>open\<close> has returned the storage information of
  \<open>/hello.txt\<close>, a first \<open>close\<close> succeeds, and a second \<open>close\<close> fails with \<open>EBADF\<close>.
\<close>

theorem close_idempotence_counterexample:
  "fst (open demo_storage (PathString (js ''/hello.txt'')) no_headers demo_world)
     = Inr (fileInfo [[], js ''hello.txt''] (js ''/srv/hello.txt'') 3 (node_stats (File 1000 5))
             None (js ''identity''))
   \<and> fst (close demo_storage
           (fileInfo [[], js ''hello.txt''] (js ''/srv/hello.txt'') 3 (node_stats (File 1000 5))
             None (js ''identity''))
           (snd (open demo_storage (PathString (js ''/hello.txt'')) no_headers demo_world)))
     = None
   \<and> fst (close demo_storage
           (fileInfo [[], js ''hello.txt''] (js ''/srv/hello.txt'') 3 (node_stats (File 1000 5))
             None (js ''identity''))
           (snd (close demo_storage
              (fileInfo [[], js ''hello.txt''] (js ''/srv/hello.txt'') 3 (node_stats (File 1000 5))
                 None (js ''identity''))
              (snd (open demo_storage (PathString (js ''/hello.txt'')) no_headers demo_world)))))
     = Some (ErrnoException (js ''EBADF''))"
  by (simp add: open_eval)

text \<open>
  Claim C7, amended. \<open>close\<close> keeps no record of a completed close: each call of
  \<open>close\<close> calls \<open>close\<close> of the \<open>fs\<close> module on the descriptor of the storage
  information and returns what it answers. So two calls of \<open>close\<close> close the
  descriptor twice, and the second one is without effect and without failure only if
  that is how the \<open>fs\<close> module treats a descriptor it has already closed.
\<close>

theorem close_calls_fs_close:
  assumes "close st storageInfo s = (r1, s1)"
    and "close st storageInfo s1 = (r2, s2)"
  shows "calls s2 = calls s @ [Closed (fd (attachedData storageInfo)),
                               Closed (fd (attachedData storageInfo))]
    \<and> r1 = map_option ErrnoException
               (fst (fs_close (fsModule st) (fd (attachedData storageInfo)) (world s)))
    \<and> world s1 = snd (fs_close (fsModule st) (fd (attachedData storageInfo)) (world s))
    \<and> r2 = map_option ErrnoException
               (fst (fs_close (fsModule st) (fd (attachedData storageInfo)) (world s1)))
    \<and> world s2 = snd (fs_close (fsModule st) (fd (attachedData storageInfo)) (world s1))"
  using assms by (auto simp: close_def fsClose_def split: prod.splits)

theorem close_calls_fs_close_witness:
  "close demo_storage
     (fileInfo [[], js ''hello.txt''] (js ''/srv/hello.txt'') 3 (node_stats (File 1000 5))
        None (js ''identity''))
     \<lparr> world = \<lparr> files = [(js ''/srv/hello.txt'', File 1000 5)],
                 descriptors = [(3, js ''/srv/hello.txt'')], next_fd = 4 \<rparr>,
       calls = [Opened 3] \<rparr>
   = (None, \<lparr> world = \<lparr> files = [(js ''/srv/hello.txt'', File 1000 5)],
                        descriptors = [], next_fd = 4 \<rparr>,
              calls = [Opened 3, Closed 3] \<rparr>)
   \<and> close demo_storage
     (fileInfo [[], js ''hello.txt''] (js ''/srv/hello.txt'') 3 (node_stats (File 1000 5))
        None (js ''identity''))
     \<lparr> world = \<lparr> files = [(js ''/srv/hello.txt'', File 1000 5)],
                 descriptors = [], next_fd = 4 \<rparr>,
       calls = [Opened 3, Closed 3] \<rparr>
   = (Some (ErrnoException (js ''EBADF'')),
      \<lparr> world = \<lparr> files = [(js ''/srv/hello.txt'', File 1000 5)],
                   descriptors = [], next_fd = 4 \<rparr>,
        calls = [Opened 3, Closed 3, Closed 3] \<rparr>)"
proof -
  let ?info = "fileInfo [[], js ''hello.txt''] (js ''/srv/hello.txt'') 3 (node_stats (File 1000 5))
        None (js ''identity'')"
  let ?s = "\<lparr> world = \<lparr> files = [(js ''/srv/hello.txt'', File 1000 5)],
                 descriptors = [(3, js ''/srv/hello.txt'')], next_fd = 4 \<rparr>,
       calls = [Opened 3] \<rparr>"
  let ?s1 = "\<lparr> world = \<lparr> files = [(js ''/srv/hello.txt'', File 1000 5)],
                        descriptors = [], next_fd = 4 \<rparr>,
              calls = [Opened 3, Closed 3] \<rparr>"
  let ?s2 = "\<lparr> world = \<lparr> files = [(js ''/srv/hello.txt'', File 1000 5)],
                   descriptors = [], next_fd = 4 \<rparr>,
        calls = [Opened 3, Closed 3, Closed 3] \<rparr>"
  have a: "close demo_storage ?info ?s = (None, ?s1)"
    by (simp add: open_eval)
  have b: "close demo_storage ?info ?s1 = (Some (ErrnoException (js ''EBADF'')), ?s2)"
    by (simp add: open_eval)
  from close_calls_fs_close [OF a b] a b show ?thesis by simp
qed


section \<open>References that are not normalized\<close>

lemma decode_all_None: "decode_all ps = None \<longleftrightarrow> (\<exists>seg\<in>set ps. decodeURIComponent seg = None)"
  by (induction ps) (auto split: option.splits)

lemma decode_all_Some:
  "decode_all ps = Some ds \<longleftrightarrow>
     (\<forall>seg\<in>set ps. decodeURIComponent seg \<noteq> None) \<and> ds = map (the \<circ> decodeURIComponent) ps"
  by (induction ps arbitrary: ds) (auto split: option.splits)

text \<open>
  Claim C4, as stated, fails in two places. The canonical form is not the decoded and
  re-encoded pathname: \<open>/%41\<close> decodes and encodes again to \<open>/A\<close>, which differs from the
  input, and yet \<open>parsePath\<close> accepts \<open>/%41\<close>, because the reference is compared with
  the pathname of the URL followed by its search, and the URL parser leaves an escape
  as it is written. And where both conditions of the claim hold, only one of the two
  errors can be thrown: the canonical form of \<open>/./%\<close> is \<open>/%\<close>, which differs from the
  input, and \<open>parsePath\<close> throws \<open>MalformedPathError\<close>, not \<open>NotNormalizedError\<close>, because
  the segment \<open>%\<close> does not decode and the decoding comes first.
\<close>

theorem normalization_rejection_counterexample:
  "startsWith (js ''/%41'') (cu CHR ''/'')
   \<and> decoded_reencoded (js ''/%41'') = Some (js ''/A'')
   \<and> js ''/A'' \<noteq> js ''/%41''
   \<and> pathname (URL_localhost (js ''/%41'')) @ search (URL_localhost (js ''/%41'')) = js ''/%41''
   \<and> parsePath demo_storage (PathString (js ''/%41'')) = Inr ([[], js ''A''], False)
   \<and> startsWith (js ''/./%'') (cu CHR ''/'')
   \<and> pathname (URL_localhost (js ''/./%'')) @ search (URL_localhost (js ''/./%'')) = js ''/%''
   \<and> js ''/%'' \<noteq> js ''/./%''
   \<and> parsePath demo_storage (PathString (js ''/./%''))
       = Inl (MalformedPathError (PathString (js ''/./%'')) [[], js ''%''])"
  by (simp add: parse_eval demo_storage_def decoded_reencoded_def reencoded_def uri_unreserved_def)

text \<open>
  Claim C4, amended. For a string reference that starts with \<open>/\<close>, the canonical form is
  the pathname of the URL followed by its search, as the URL parser writes them: dot
  segments removed, characters percent-encoded, the escapes of the reference kept as
  they are. If a segment of the pathname does not decode, \<open>parsePath\<close> throws
  \<open>MalformedPathError\<close> with the segments as they are, whether the reference is
  normalized or not. If every segment of the pathname decodes and the canonical form
  differs from the reference, \<open>parsePath\<close> throws \<open>NotNormalizedError\<close> with the decoded
  segments and with the canonical form as \<open>normalizedPath\<close>.
\<close>

theorem normalization_rejection:
  assumes "startsWith p (cu CHR ''/'')"
  shows "((\<forall>seg\<in>set (split_on (cu CHR ''/'') (pathname (URL_localhost p))).
             decodeURIComponent seg \<noteq> None)
          \<and> p \<noteq> pathname (URL_localhost p) @ search (URL_localhost p)
        \<longrightarrow> parsePath st (PathString p)
            = Inl (NotNormalizedError (PathString p)
                    (map (the \<circ> decodeURIComponent) (split_on (cu CHR ''/'') (pathname (URL_localhost p))))
                    (pathname (URL_localhost p) @ search (URL_localhost p))))
     \<and> ((\<exists>seg\<in>set (split_on (cu CHR ''/'') (pathname (URL_localhost p))).
             decodeURIComponent seg = None)
        \<longrightarrow> parsePath st (PathString p)
            = Inl (MalformedPathError (PathString p) (split_on (cu CHR ''/'') (pathname (URL_localhost p)))))"
proof (cases "decode_all (split_on (cu CHR ''/'') (pathname (URL_localhost p)))")
  case None
  then have "referenceParts (PathString p)
      = Inl (MalformedPathError (PathString p) (split_on (cu CHR ''/'') (pathname (URL_localhost p))))"
    using assms by (simp add: referenceParts_def Let_def)
  then have "parsePath st (PathString p)
      = Inl (MalformedPathError (PathString p) (split_on (cu CHR ''/'') (pathname (URL_localhost p))))"
    by (simp add: parsePath_def)
  with None show ?thesis by (auto simp: decode_all_None)
next
  case (Some ds)
  then have ds: "\<forall>seg\<in>set (split_on (cu CHR ''/'') (pathname (URL_localhost p))).
      decodeURIComponent seg \<noteq> None"
    "ds = map (the \<circ> decodeURIComponent) (split_on (cu CHR ''/'') (pathname (URL_localhost p)))"
    by (simp_all add: decode_all_Some)
  have "p \<noteq> pathname (URL_localhost p) @ search (URL_localhost p) \<Longrightarrow>
     parsePath st (PathString p)
       = Inl (NotNormalizedError (PathString p) ds (pathname (URL_localhost p) @ search (URL_localhost p)))"
    using assms Some by (simp add: parsePath_def referenceParts_def Let_def)
  with ds show ?thesis by auto
qed

theorem normalization_rejection_witness:
  "startsWith (js ''/users/../../etc/passwd'') (cu CHR ''/'')
   \<and> pathname (URL_localhost (js ''/users/../../etc/passwd'')) = js ''/etc/passwd''
   \<and> search (URL_localhost (js ''/users/../../etc/passwd'')) = []
   \<and> parsePath demo_storage (PathString (js ''/users/../../etc/passwd''))
       = Inl (NotNormalizedError (PathString (js ''/users/../../etc/passwd''))
               [[], js ''etc'', js ''passwd''] (js ''/etc/passwd''))
   \<and> startsWith (js ''/%'') (cu CHR ''/'')
   \<and> decodeURIComponent (js ''%'') = None
   \<and> parsePath demo_storage (PathString (js ''/%''))
       = Inl (MalformedPathError (PathString (js ''/%'')) [[], js ''%''])"
proof -
  have a: "startsWith (js ''/users/../../etc/passwd'') (cu CHR ''/'')" by (simp add: startsWith_def)
  have u: "pathname (URL_localhost (js ''/users/../../etc/passwd'')) = js ''/etc/passwd''"
    "search (URL_localhost (js ''/users/../../etc/passwd'')) = []"
    by (simp_all add: url_eval)
  have b: "startsWith (js ''/%'') (cu CHR ''/'')" by (simp add: startsWith_def)
  have v: "pathname (URL_localhost (js ''/%'')) = js ''/%''"
    by (simp add: url_eval)
  have d: "decodeURIComponent (js ''%'') = None" by (simp add: decode_eval)
  have e: "decodeURIComponent (js ''etc'') = Some (js ''etc'')"
    "decodeURIComponent (js ''passwd'') = Some (js ''passwd'')" by (simp_all add: decode_eval)
  from normalization_rejection [OF a, of demo_storage] e
  have "parsePath demo_storage (PathString (js ''/users/../../etc/passwd''))
       = Inl (NotNormalizedError (PathString (js ''/users/../../etc/passwd''))
               [[], js ''etc'', js ''passwd''] (js ''/etc/passwd''))"
    unfolding u by simp
  moreover from normalization_rejection [OF b, of demo_storage] d
  have "parsePath demo_storage (PathString (js ''/%''))
       = Inl (MalformedPathError (PathString (js ''/%'')) [[], js ''%''])"
    unfolding v by simp
  ultimately show ?thesis using a b u d by simp
qed



section \<open>The pathname of a URL\<close>

lemma scalar_value_bound: "scalar_value c < 0x110000"
proof -
  have "unat c < 65536" using unsigned_less [of c, where ?'a = nat] by simp
  then show ?thesis by (simp add: scalar_value_def)
qed

lemma surrogate_pair_bound:
  assumes "is_high_surrogate c" "is_low_surrogate d"
  shows "0x10000 + (unat c - 0xD800) * 0x400 + (unat d - 0xDC00) < (0x110000::nat)"
proof -
  from assms have "unat c \<le> 0xDBFF" "unat d \<le> 0xDFFF"
    by (simp_all add: is_high_surrogate_def is_low_surrogate_def word_le_nat_alt)
  then show ?thesis by simp
qed

lemma scalar_values_bound: "\<forall>c\<in>set (scalar_values s). c < 0x110000"
proof (induction s rule: scalar_values.induct)
  case 1
  then show ?case by simp
next
  case (2 c cs)
  show ?case
  proof (cases cs)
    case Nil
    then show ?thesis using scalar_value_bound [of c] by simp
  next
    case (Cons d ds)
    show ?thesis
    proof (cases "is_high_surrogate c \<and> is_low_surrogate d")
      case True
      with 2 Cons surrogate_pair_bound [of c d] show ?thesis by simp
    next
      case False
      with 2 Cons scalar_value_bound [of c] show ?thesis by auto
    qed
  qed
qed

lemma utf8_encode_bytes: "cp < 0x110000 \<Longrightarrow> \<forall>b\<in>set (utf8_encode cp). b < 256"
  by (auto simp: utf8_encode_def)

lemma unat_of_nat_unit: "m < 65536 \<Longrightarrow> unat (of_nat m :: code_unit) = m"
  by (simp add: unat_of_nat)

lemma hex_digit_unat:
  assumes "n < 16"
  shows "unat (hex_digit n) = (if n < 10 then 48 + n else 55 + n)"
proof (cases "n < 10")
  case True
  then have "48 + n < 65536" by simp
  from unat_of_nat_unit [OF this] True show ?thesis by (simp only: hex_digit_def if_True)
next
  case False
  from assms have "55 + n < 65536" by simp
  from unat_of_nat_unit [OF this] False show ?thesis by (simp only: hex_digit_def if_False)
qed

lemma hex_digit_escape: "n < 16 \<Longrightarrow> escape_unit (hex_digit n)"
  by (simp add: escape_unit_def hex_digit_unat)

lemma percent_byte_units: "b < 256 \<Longrightarrow> \<forall>u\<in>set (percent_byte b). escape_unit u"
proof -
  assume "b < 256"
  then have "b div 16 < 16" "b mod 16 < 16" by auto
  with hex_digit_escape [of "b div 16"] hex_digit_escape [of "b mod 16"]
  show ?thesis by (simp add: percent_byte_def) (simp add: escape_unit_def)
qed

lemma percent_encode_units:
  assumes "cp < 0x110000"
  shows "(\<forall>u\<in>set (percent_encode in_set cp). escape_unit u)
         \<or> (\<not> in_set cp \<and> percent_encode in_set cp = [of_nat cp])"
proof (cases "in_set cp")
  case True
  have "\<forall>u\<in>set (percent_byte b). escape_unit u" if "b \<in> set (utf8_encode cp)" for b
    using that utf8_encode_bytes [OF assms] percent_byte_units by blast
  then have "\<forall>u\<in>set (concat (map percent_byte (utf8_encode cp))). escape_unit u"
    by auto
  with True show ?thesis by (simp add: percent_encode_def)
next
  case False
  then show ?thesis by (simp add: percent_encode_def)
qed

lemma of_nat_small_eq:
  fixes u :: code_unit
  assumes "cp \<le> 0x7E" "of_nat cp = u"
  shows "cp = unat u"
proof -
  from assms(1) have "cp < 2 ^ LENGTH(16)" by simp
  with assms(2) show ?thesis by (simp add: of_nat_inverse)
qed

text \<open>A slash or a question mark is never put into a segment by the path state.\<close>

lemma percent_encode_path_absent:
  assumes "cp < 0x110000" "cp \<noteq> 0x2F" "cp \<noteq> 0x3F"
    and u: "u = cu CHR ''/'' \<or> u = cu CHR ''?''"
  shows "u \<notin> set (percent_encode path_set cp)"
proof
  assume a: "u \<in> set (percent_encode path_set cp)"
  from percent_encode_units [OF assms(1), of path_set]
  show False
  proof
    assume "\<forall>u\<in>set (percent_encode path_set cp). escape_unit u"
    with a have "escape_unit u" by blast
    with u show False by (auto simp: escape_unit_def)
  next
    assume b: "\<not> path_set cp \<and> percent_encode path_set cp = [of_nat cp]"
    then have "cp \<le> 0x7E" by (auto simp: path_set_def query_set_def c0_control_set_def)
    moreover from a b have "of_nat cp = u" by simp
    ultimately have "cp = unat u" by (rule of_nat_small_eq)
    with u assms(2,3) show False by auto
  qed
qed

lemma slash_segment_set: "set (slash_segment segs buf) \<subseteq> set segs \<union> {buf}"
  by (auto simp: slash_segment_def dest: in_set_butlastD)

lemma end_segment_set: "set (end_segment segs buf) \<subseteq> set segs \<union> {buf, []}"
  by (auto simp: end_segment_def dest: in_set_butlastD)

lemma path_state_absent:
  assumes u: "u = cu CHR ''/'' \<or> u = cu CHR ''?''"
  shows "\<forall>c\<in>set cs. c < 0x110000 \<Longrightarrow> \<forall>seg\<in>set segs. u \<notin> set seg \<Longrightarrow> u \<notin> set buf
    \<Longrightarrow> path_state cs segs buf = (segs', q) \<Longrightarrow> \<forall>seg\<in>set segs'. u \<notin> set seg"
proof (induction cs segs buf rule: path_state.induct)
  case (1 segs buf)
  from "1.prems"(4) have "segs' = end_segment segs buf" by simp
  then show ?case using "1.prems"(2,3) end_segment_set [of segs buf] by auto
next
  case (2 c cs segs buf)
  note eq = path_state.simps(2) [of c cs segs buf]
  from "2.prems"(1) have cb: "c < 0x110000" and csb: "\<forall>c\<in>set cs. c < 0x110000" by simp_all
  show ?case
  proof (cases "c = 0x2F \<or> c = 0x5C")
    case True
    have "path_state (c # cs) segs buf = path_state cs (slash_segment segs buf) []"
      by (subst eq) (use True in \<open>simp only: if_True simp_thms\<close>)
    with "2.prems"(4) have p: "path_state cs (slash_segment segs buf) [] = (segs', q)" by simp
    have s: "\<forall>seg\<in>set (slash_segment segs buf). u \<notin> set seg"
      using "2.prems"(2,3) slash_segment_set [of segs buf] by auto
    have e: "u \<notin> set []" by simp
    from "2.IH"(1) [OF True csb s e p] show ?thesis .
  next
    case False
    show ?thesis
    proof (cases "c = 0x3F")
      case True
      have "path_state (c # cs) segs buf = (end_segment segs buf, Some cs)"
        by (subst eq) (use False True in \<open>simp only: if_True if_False simp_thms\<close>)
      with "2.prems"(4) have "segs' = end_segment segs buf" by simp
      then show ?thesis using "2.prems"(2,3) end_segment_set [of segs buf] by auto
    next
      case nq: False
      show ?thesis
      proof (cases "c = 0x23")
        case True
        have "path_state (c # cs) segs buf = (end_segment segs buf, None)"
          by (subst eq) (use False nq True in \<open>simp only: if_True if_False simp_thms\<close>)
        with "2.prems"(4) have "segs' = end_segment segs buf" by simp
        then show ?thesis using "2.prems"(2,3) end_segment_set [of segs buf] by auto
      next
        case nh: False
        have "path_state (c # cs) segs buf = path_state cs segs (buf @ percent_encode path_set c)"
          by (subst eq) (use False nq nh in \<open>simp only: if_False simp_thms\<close>)
        with "2.prems"(4) have p: "path_state cs segs (buf @ percent_encode path_set c) = (segs', q)"
          by simp
        from False have "c \<noteq> 0x2F" by simp
        from percent_encode_path_absent [OF cb this nq u]
        have "u \<notin> set (buf @ percent_encode path_set c)" using "2.prems"(3) by simp
        from "2.IH"(2) [OF False nq nh csb "2.prems"(2) this p] show ?thesis .
      qed
    qed
  qed
qed

lemma URL_input_bound:
  "\<forall>c\<in>set (tl (remove_tab_newline (strip_trailing (scalar_values p)))). c < 0x110000"
proof -
  have "set (tl (remove_tab_newline (strip_trailing (scalar_values p)))) \<subseteq> set (scalar_values p)"
  proof
    fix c assume "c \<in> set (tl (remove_tab_newline (strip_trailing (scalar_values p))))"
    then have "c \<in> set (remove_tab_newline (strip_trailing (scalar_values p)))"
      by (cases "remove_tab_newline (strip_trailing (scalar_values p))") auto
    then have "c \<in> set (strip_trailing (scalar_values p))" by (simp add: remove_tab_newline_def)
    then have "c \<in> set (dropWhile (\<lambda>c. c \<le> 0x20) (rev (scalar_values p)))"
      by (simp add: strip_trailing_def)
    then have "c \<in> set (rev (scalar_values p))" by (rule set_dropWhileD)
    then show "c \<in> set (scalar_values p)" by simp
  qed
  with scalar_values_bound show ?thesis by blast
qed

text \<open>The segments of the path of a URL, its \<open>pathname\<close> being their serialization.\<close>

lemma URL_segments:
  obtains segs q where
    "path_state (tl (remove_tab_newline (strip_trailing (scalar_values p)))) [] [] = (segs, q)"
    "pathname (URL_localhost p) = concat (map ((#) (cu CHR ''/'')) segs)"
    "\<forall>seg\<in>set segs. cu CHR ''/'' \<notin> set seg"
    "\<forall>seg\<in>set segs. cu CHR ''?'' \<notin> set seg"
proof -
  obtain segs q where
    ps: "path_state (tl (remove_tab_newline (strip_trailing (scalar_values p)))) [] [] = (segs, q)"
    by (cases "path_state (tl (remove_tab_newline (strip_trailing (scalar_values p)))) [] []")
  then have "pathname (URL_localhost p) = concat (map ((#) (cu CHR ''/'')) segs)"
    by (simp add: URL_localhost_def Let_def)
  moreover have "\<forall>seg\<in>set segs. cu CHR ''/'' \<notin> set seg"
    by (rule path_state_absent [OF _ URL_input_bound _ _ ps]) simp_all
  moreover have "\<forall>seg\<in>set segs. cu CHR ''?'' \<notin> set seg"
    by (rule path_state_absent [OF _ URL_input_bound _ _ ps]) simp_all
  ultimately show ?thesis using ps that by blast
qed

lemma pathname_no_query: "cu CHR ''?'' \<notin> set (pathname (URL_localhost p))"
proof -
  obtain segs q where "pathname (URL_localhost p) = concat (map ((#) (cu CHR ''/'')) segs)"
    "\<forall>seg\<in>set segs. cu CHR ''?'' \<notin> set seg"
    by (rule URL_segments)
  then show ?thesis by auto
qed

lemma search_starts: "search (URL_localhost p) = [] \<or> hd (search (URL_localhost p)) = cu CHR ''?''"
  by (simp add: URL_localhost_def Let_def split: prod.splits option.splits)

text \<open>For a normalized reference the pathname is what comes before the first \<open>?\<close>.\<close>

lemma normalized_pathname:
  assumes "p = pathname (URL_localhost p) @ search (URL_localhost p)"
  shows "pathname (URL_localhost p) = takeWhile (\<lambda>c. c \<noteq> cu CHR ''?'') p"
proof -
  let ?pn = "pathname (URL_localhost p)" and ?se = "search (URL_localhost p)"
  have all: "\<And>x. x \<in> set ?pn \<Longrightarrow> x \<noteq> cu CHR ''?''" using pathname_no_query [of p] by auto
  have "takeWhile (\<lambda>c. c \<noteq> cu CHR ''?'') (?pn @ ?se) = ?pn @ takeWhile (\<lambda>c. c \<noteq> cu CHR ''?'') ?se"
    using all by (rule takeWhile_append2)
  moreover have "takeWhile (\<lambda>c. c \<noteq> cu CHR ''?'') ?se = []"
    using search_starts [of p] by (cases ?se) auto
  ultimately show ?thesis using assms by simp
qed


section \<open>The query of a reference\<close>

lemma referenceParts_string:
  assumes "referenceParts (PathString p) = Inr parts"
  shows "decode_all (split_on (cu CHR ''/'') (pathname (URL_localhost p))) = Some parts"
    and "p = pathname (URL_localhost p) @ search (URL_localhost p)"
  using assms by (auto simp: referenceParts_def Let_def split: if_splits option.splits)

lemma parsePath_reference:
  assumes "referenceParts ref1 = Inr parts" "referenceParts ref2 = Inr parts"
  shows "parsePath st ref2 = map_sum (with_reference ref2) id (parsePath st ref1)"
  unfolding parsePath_parts [OF assms(1)] parsePath_parts [OF assms(2)]
  by (simp add: if_distrib [of "map_sum (with_reference ref2) id"]
      OnDirectory.case_distrib [of "map_sum (with_reference ref2) id"]
      cong: if_cong OnDirectory.case_cong)

lemma stat_error: "stat st d p s = (Inl e, s') \<Longrightarrow> with_reference r e = e"
proof -
  assume a: "stat st d p s = (Inl e, s')"
  obtain x w where f: "fs_fstat (fsModule st) d (world s) = (x, w)"
    by (cases "fs_fstat (fsModule st) d (world s)")
  with a show ?thesis by (cases x) (auto simp: stat_def)
qed

lemma earlyClose_error: "earlyClose st d p s = (Some e, s') \<Longrightarrow> with_reference r e = e"
proof -
  assume a: "earlyClose st d p s = (Some e, s')"
  obtain x w where f: "fs_close (fsModule st) d (world s) = (x, w)"
    by (cases "fs_close (fsModule st) d (world s)")
  with a show ?thesis by (cases x) (auto simp: earlyClose_def fsClose_def)
qed

lemma open_loop_reference:
  "open_loop st ref2 parts resolved m cands s =
     apfst (map_sum (apfst (with_reference ref2)) id) (open_loop st ref1 parts resolved m cands s)"
proof (induction cands arbitrary: s)
  case Nil
  then show ?case by simp
next
  case (Cons c cands)
  obtain nm pref where c: "c = (nm, pref)" by (cases c)
  show ?case
    unfolding c open_loop.simps Let_def
    by (auto simp: Cons.IH split: prod.splits option.splits sum.splits
        dest: stat_error [where r = ref2] earlyClose_error [where r = ref2])
qed

lemma open_try_reference:
  "open_try st ref2 parts trailing resolved hdrs s =
     apfst (map_sum (apfst (with_reference ref2)) id) (open_try st ref1 parts trailing resolved hdrs s)"
  unfolding open_try_def Let_def open_loop_reference [of st ref2 _ _ _ _ _ ref1]
  by (auto split: prod.splits option.splits sum.splits
        dest: stat_error [where r = ref2] earlyClose_error [where r = ref2])

lemma open_reference:
  assumes "referenceParts ref1 = Inr parts" "referenceParts ref2 = Inr parts"
  shows "open st ref2 hdrs s = apfst (map_sum (with_reference ref2) id) (open st ref1 hdrs s)"
  unfolding open_def Let_def parsePath_reference [OF assms, of st]
    open_try_reference [of st ref2 _ _ _ _ _ ref1]
  by (auto split: prod.splits option.splits sum.splits
        dest: earlyClose_error [where r = ref2])


text \<open>
  Claim C10. Take two string references that \<open>parsePath\<close> finds canonical (each starts
  with \<open>/\<close>, decodes, and equals the pathname plus search of its URL) and that differ at
  most after the first \<open>?\<close>. The check of normalization compares the whole reference
  with pathname plus search, but the path parts are the decoded segments of what stands
  before the first \<open>?\<close>, so the query gives no part. Both references have the same
  parts, \<open>parsePath\<close> gives the same outcome for both, and \<open>open\<close>, from the same state,
  gives the same outcome and ends in the same state (same resolved path, same file,
  same calls); only the reference kept inside an error differs.
\<close>

theorem query_string_transparency:
  assumes a1: "referenceParts (PathString p1) = Inr parts1"
    and a2: "referenceParts (PathString p2) = Inr parts2"
    and pre: "takeWhile (\<lambda>c. c \<noteq> cu CHR ''?'') p1 = takeWhile (\<lambda>c. c \<noteq> cu CHR ''?'') p2"
  shows "p1 = pathname (URL_localhost p1) @ search (URL_localhost p1)
    \<and> decode_all (split_on (cu CHR ''/'') (takeWhile (\<lambda>c. c \<noteq> cu CHR ''?'') p1)) = Some parts1
    \<and> parts2 = parts1
    \<and> parsePath st (PathString p2)
        = map_sum (with_reference (PathString p2)) id (parsePath st (PathString p1))
    \<and> open st (PathString p2) hdrs s
        = apfst (map_sum (with_reference (PathString p2)) id) (open st (PathString p1) hdrs s)"
proof -
  note r1 = referenceParts_string [OF a1] and r2 = referenceParts_string [OF a2]
  from normalized_pathname [OF r1(2)] normalized_pathname [OF r2(2)] pre
  have pn: "pathname (URL_localhost p1) = takeWhile (\<lambda>c. c \<noteq> cu CHR ''?'') p1"
    "pathname (URL_localhost p2) = pathname (URL_localhost p1)" by simp_all
  from r1(1) r2(1) pn have eq: "parts2 = parts1" by simp
  from a2 eq have a2': "referenceParts (PathString p2) = Inr parts1" by simp
  show ?thesis
    using r1 pn(1) eq parsePath_reference [OF a1 a2', of st] open_reference [OF a1 a2', of st hdrs s]
    by simp
qed

theorem query_string_transparency_witness:
  "referenceParts (PathString (js ''/hello.txt?x=1'')) = Inr [[], js ''hello.txt'']
   \<and> referenceParts (PathString (js ''/hello.txt?y=2&z'')) = Inr [[], js ''hello.txt'']
   \<and> takeWhile (\<lambda>c. c \<noteq> cu CHR ''?'') (js ''/hello.txt?x=1'')
       = takeWhile (\<lambda>c. c \<noteq> cu CHR ''?'') (js ''/hello.txt?y=2&z'')
   \<and> fst (open demo_storage (PathString (js ''/hello.txt?x=1'')) no_headers demo_world)
       = Inr (fileInfo [[], js ''hello.txt''] (js ''/srv/hello.txt'') 3 (node_stats (File 1000 5))
               None (js ''identity''))
   \<and> open demo_storage (PathString (js ''/hello.txt?y=2&z'')) no_headers demo_world
       = open demo_storage (PathString (js ''/hello.txt?x=1'')) no_headers demo_world"
proof -
  have a: "referenceParts (PathString (js ''/hello.txt?x=1'')) = Inr [[], js ''hello.txt'']"
    by (simp add: parse_eval)
  have b: "referenceParts (PathString (js ''/hello.txt?y=2&z'')) = Inr [[], js ''hello.txt'']"
    by (simp add: parse_eval)
  have c: "takeWhile (\<lambda>c. c \<noteq> cu CHR ''?'') (js ''/hello.txt?x=1'')
       = takeWhile (\<lambda>c. c \<noteq> cu CHR ''?'') (js ''/hello.txt?y=2&z'')"
    by simp
  have o: "fst (open demo_storage (PathString (js ''/hello.txt?x=1'')) no_headers demo_world)
       = Inr (fileInfo [[], js ''hello.txt''] (js ''/srv/hello.txt'') 3 (node_stats (File 1000 5))
               None (js ''identity''))"
    by (simp add: open_eval)
  from query_string_transparency [OF a b c, of demo_storage no_headers demo_world]
  have "open demo_storage (PathString (js ''/hello.txt?y=2&z'')) no_headers demo_world
       = apfst (map_sum (with_reference (PathString (js ''/hello.txt?y=2&z''))) id)
           (open demo_storage (PathString (js ''/hello.txt?x=1'')) no_headers demo_world)"
    by blast
  with o have "open demo_storage (PathString (js ''/hello.txt?y=2&z'')) no_headers demo_world
       = open demo_storage (PathString (js ''/hello.txt?x=1'')) no_headers demo_world"
    by (cases "open demo_storage (PathString (js ''/hello.txt?x=1'')) no_headers demo_world") simp
  with a b c o show ?thesis by simp
qed



section \<open>Dot segments\<close>

lemma of_nat_unit_eq:
  fixes u :: code_unit
  assumes "of_nat n = u" "n < 65536"
  shows "n = unat u"
proof -
  from assms(2) have "n < 2 ^ LENGTH(16)" by simp
  with assms(1) show ?thesis by (simp add: of_nat_inverse)
qed

lemma hex_value_unat:
  "hex_value c =
     (if 48 \<le> unat c \<and> unat c \<le> 57 then Some (unat c - 48)
      else if 97 \<le> unat c \<and> unat c \<le> 102 then Some (unat c - 87)
      else if 65 \<le> unat c \<and> unat c \<le> 70 then Some (unat c - 55)
      else None)"
  by (simp add: hex_value_def word_le_nat_alt)

lemma hex_value_bound: "hex_value c = Some v \<Longrightarrow> v < 16"
  by (auto simp: hex_value_unat split: if_splits)

lemma unit_of_unat: "unat (c :: code_unit) = n \<Longrightarrow> c = of_nat n"
  by (auto simp: word_unat_eq_iff)

lemma hex_value_2: "hex_value c = Some 2 \<Longrightarrow> c = cu CHR ''2''"
proof -
  assume "hex_value c = Some 2"
  then have "unat c = 50" by (auto simp: hex_value_unat split: if_splits)
  from unit_of_unat [OF this] show ?thesis by simp
qed

lemma hex_value_14: "hex_value c = Some 14 \<Longrightarrow> c = cu CHR ''e'' \<or> c = cu CHR ''E''"
proof -
  assume "hex_value c = Some 14"
  then have "unat c = 101 \<or> unat c = 69" by (auto simp: hex_value_unat split: if_splits)
  then show ?thesis using unit_of_unat [of c 101] unit_of_unat [of c 69] by auto
qed

text \<open>The only escape of a full stop is \<open>%2e\<close> or \<open>%2E\<close>.\<close>

lemma escape_byte_dot:
  assumes "escape_byte cs = Some 46"
  shows "\<exists>h rest. cs = cu CHR ''2'' # h # rest \<and> (h = cu CHR ''e'' \<or> h = cu CHR ''E'')"
proof -
  from assms obtain h1 h2 rest a b where cs: "cs = h1 # h2 # rest"
    and h: "hex_value h1 = Some a" "hex_value h2 = Some b" and s: "16 * a + b = 46"
    by (auto simp: escape_byte_def split: list.splits option.splits)
  from hex_value_bound [OF h(1)] hex_value_bound [OF h(2)] s have "a = 2" "b = 14" by arith+
  with h hex_value_2 hex_value_14 cs show ?thesis by blast
qed

lemma escapes_length: "escapes k s = Some bs \<Longrightarrow> length bs = k"
  by (induction k s arbitrary: bs rule: escapes.induct) (auto split: option.splits)

lemma utf8_decode_range:
  assumes "utf8_decode (b # bs) = Some cp" "b < 0xF8"
  shows "0x80 \<le> cp \<and> cp \<le> 0x10FFFF"
proof (cases bs)
  case Nil
  with assms show ?thesis by simp
next
  case c1: (Cons b1 r1)
  show ?thesis
  proof (cases r1)
    case Nil
    with c1 assms show ?thesis by (auto simp: Let_def continuation_def split: if_splits)
  next
    case c2: (Cons b2 r2)
    show ?thesis
    proof (cases r2)
      case Nil
      with c1 c2 assms show ?thesis by (auto simp: Let_def continuation_def split: if_splits)
    next
      case c3: (Cons b3 r3)
      show ?thesis
      proof (cases r3)
        case Nil
        with c1 c2 c3 assms show ?thesis by (auto simp: Let_def continuation_def split: if_splits)
      next
        case (Cons b4 r4)
        with c1 c2 c3 assms show ?thesis by simp
      qed
    qed
  qed
qed

lemma utf16_head:
  assumes "0x80 \<le> cp" "cp \<le> 0x10FFFF"
  shows "\<exists>u us. utf16 cp = u # us \<and> u \<noteq> cu CHR ''.''"
proof (cases "cp < 0x10000")
  case True
  have "(of_nat cp :: code_unit) \<noteq> cu CHR ''.''"
  proof
    assume "(of_nat cp :: code_unit) = cu CHR ''.''"
    from of_nat_unit_eq [OF this] True have "cp = 46" by simp
    with assms show False by simp
  qed
  with True show ?thesis by (simp add: utf16_def)
next
  case False
  let ?h = "0xD800 + (cp - 0x10000) div 0x400"
  have hb: "?h < 65536" "0xD800 \<le> ?h" using assms by auto
  have "(of_nat ?h :: code_unit) \<noteq> cu CHR ''.''"
  proof
    assume "(of_nat ?h :: code_unit) = cu CHR ''.''"
    from of_nat_unit_eq [OF this hb(1)] have "?h = 46" by simp
    with hb(2) show False by simp
  qed
  with False show ?thesis by (simp add: utf16_def)
qed


lemma leading_ones_small: "leading_ones b \<le> 4 \<Longrightarrow> b < 0xF8"
  by (auto simp: leading_ones_def split: if_splits)

lemma leading_ones_0: "leading_ones b = 0 \<Longrightarrow> b < 0x80"
  by (auto simp: leading_ones_def split: if_splits)

text \<open>
  How \<open>decodeURIComponent\<close> can give a string that starts with a full stop, and how it
  can give the empty string.
\<close>

lemma decode_Nil: "decodeURIComponent s = Some [] \<Longrightarrow> s = []"
proof (cases s)
  case Nil
  then show ?thesis by simp
next
  case (Cons c cs)
  assume a: "decodeURIComponent s = Some []"
  show ?thesis
  proof (cases "c = cu CHR ''%''")
    case False
    with a Cons show ?thesis by simp
  next
    case True
    from a Cons True obtain b where b: "escape_byte cs = Some b"
      by (cases "escape_byte cs") auto
    show ?thesis
    proof (cases "leading_ones b = 0")
      case True
      with a Cons \<open>c = cu CHR ''%''\<close> b show ?thesis by (simp add: Let_def)
    next
      case False
      with a Cons \<open>c = cu CHR ''%''\<close> b obtain bs cp where n: "leading_ones b \<le> 4"
        and d: "utf8_decode (b # bs) = Some cp"
        and e: "map_option ((@) (utf16 cp))
                  (decodeURIComponent (drop (2 + 3 * (leading_ones b - 1)) cs)) = Some []"
        by (auto simp: Let_def split: if_splits option.splits)
      from utf8_decode_range [OF d leading_ones_small [OF n]] utf16_head [of cp]
      obtain u us where "utf16 cp = u # us" by blast
      with e show ?thesis by auto
    qed
  qed
qed

lemma decode_dot_head:
  assumes "decodeURIComponent s = Some (cu CHR ''.'' # ds)"
  shows "(\<exists>t. s = cu CHR ''.'' # t \<and> decodeURIComponent t = Some ds)
       \<or> (\<exists>h t. s = cu CHR ''%'' # cu CHR ''2'' # h # t \<and> (h = cu CHR ''e'' \<or> h = cu CHR ''E'')
                \<and> decodeURIComponent t = Some ds)"
proof (cases s)
  case Nil
  with assms show ?thesis by simp
next
  case (Cons c cs)
  show ?thesis
  proof (cases "c = cu CHR ''%''")
    case False
    with assms Cons show ?thesis by auto
  next
    case True
    from assms Cons True obtain b where b: "escape_byte cs = Some b"
      by (cases "escape_byte cs") auto
    show ?thesis
    proof (cases "leading_ones b = 0")
      case z: True
      with assms Cons True b have u: "(of_nat b :: code_unit) = cu CHR ''.''"
        and r: "decodeURIComponent (drop 2 cs) = Some ds"
        by (auto simp: Let_def)
      from leading_ones_0 [OF z] have "b < 65536" by simp
      from of_nat_unit_eq [OF u this] have "b = 46" by simp
      with b escape_byte_dot obtain h rest where cs: "cs = cu CHR ''2'' # h # rest"
        "h = cu CHR ''e'' \<or> h = cu CHR ''E''" by blast
      with r Cons True show ?thesis by auto
    next
      case False
      with assms Cons True b obtain bs cp where n: "leading_ones b \<le> 4"
        and d: "utf8_decode (b # bs) = Some cp"
        and e: "map_option ((@) (utf16 cp))
                  (decodeURIComponent (drop (2 + 3 * (leading_ones b - 1)) cs))
                = Some (cu CHR ''.'' # ds)"
        by (auto simp: Let_def split: if_splits option.splits)
      from utf8_decode_range [OF d leading_ones_small [OF n]] utf16_head [of cp]
      obtain u us where "utf16 cp = u # us" "u \<noteq> cu CHR ''.''" by blast
      with e show ?thesis by auto
    qed
  qed
qed

lemma decode_dot: "decodeURIComponent s = Some (js ''.'') \<Longrightarrow> single_dot s"
proof -
  assume "decodeURIComponent s = Some (js ''.'')"
  then have "decodeURIComponent s = Some (cu CHR ''.'' # [])" by simp
  from decode_dot_head [OF this] show ?thesis
    by (auto dest!: decode_Nil simp: single_dot_def ascii_lower_def)
qed

lemma decode_dotdot: "decodeURIComponent s = Some (js ''..'') \<Longrightarrow> double_dot s"
proof -
  assume "decodeURIComponent s = Some (js ''..'')"
  then have "decodeURIComponent s = Some (cu CHR ''.'' # [cu CHR ''.''])" by simp
  from decode_dot_head [OF this] consider
      (plain) t where "s = cu CHR ''.'' # t" "decodeURIComponent t = Some [cu CHR ''.'']"
    | (escaped) h t where "s = cu CHR ''%'' # cu CHR ''2'' # h # t"
        "h = cu CHR ''e'' \<or> h = cu CHR ''E''" "decodeURIComponent t = Some [cu CHR ''.'']"
    by blast
  then show ?thesis
  proof cases
    case plain
    from decode_dot_head [OF plain(2)] show ?thesis
      by (auto dest!: decode_Nil simp: plain(1) double_dot_def ascii_lower_def)
  next
    case escaped
    from decode_dot_head [OF escaped(3)] escaped(2) show ?thesis
      by (auto dest!: decode_Nil simp: escaped(1) double_dot_def ascii_lower_def)
  qed
qed


lemma no_dots_Nil: "\<not> single_dot []" "\<not> double_dot []"
  by (simp_all add: single_dot_def double_dot_def)

lemma slash_segment_no_dots:
  "\<forall>seg\<in>set segs. \<not> single_dot seg \<and> \<not> double_dot seg
   \<Longrightarrow> \<forall>seg\<in>set (slash_segment segs buf). \<not> single_dot seg \<and> \<not> double_dot seg"
  by (auto simp: slash_segment_def dest: in_set_butlastD)

lemma end_segment_no_dots:
  "\<forall>seg\<in>set segs. \<not> single_dot seg \<and> \<not> double_dot seg
   \<Longrightarrow> \<forall>seg\<in>set (end_segment segs buf). \<not> single_dot seg \<and> \<not> double_dot seg"
  by (auto simp: end_segment_def no_dots_Nil dest: in_set_butlastD)

text \<open>The path state never keeps a single-dot or double-dot segment.\<close>

lemma path_state_no_dots:
  "\<forall>seg\<in>set segs. \<not> single_dot seg \<and> \<not> double_dot seg
   \<Longrightarrow> path_state cs segs buf = (segs', q)
   \<Longrightarrow> \<forall>seg\<in>set segs'. \<not> single_dot seg \<and> \<not> double_dot seg"
proof (induction cs segs buf rule: path_state.induct)
  case (1 segs buf)
  from "1.prems"(2) have "segs' = end_segment segs buf" by simp
  with end_segment_no_dots [OF "1.prems"(1)] show ?case by simp
next
  case (2 c cs segs buf)
  note eq = path_state.simps(2) [of c cs segs buf]
  show ?case
  proof (cases "c = 0x2F \<or> c = 0x5C")
    case True
    have "path_state (c # cs) segs buf = path_state cs (slash_segment segs buf) []"
      by (subst eq) (use True in \<open>simp only: if_True simp_thms\<close>)
    with "2.prems"(2) have p: "path_state cs (slash_segment segs buf) [] = (segs', q)" by simp
    from "2.IH"(1) [OF True slash_segment_no_dots [OF "2.prems"(1)] p] show ?thesis .
  next
    case False
    show ?thesis
    proof (cases "c = 0x3F")
      case True
      have "path_state (c # cs) segs buf = (end_segment segs buf, Some cs)"
        by (subst eq) (use False True in \<open>simp only: if_True if_False simp_thms\<close>)
      with "2.prems"(2) have "segs' = end_segment segs buf" by simp
      with end_segment_no_dots [OF "2.prems"(1)] show ?thesis by simp
    next
      case nq: False
      show ?thesis
      proof (cases "c = 0x23")
        case True
        have "path_state (c # cs) segs buf = (end_segment segs buf, None)"
          by (subst eq) (use False nq True in \<open>simp only: if_True if_False simp_thms\<close>)
        with "2.prems"(2) have "segs' = end_segment segs buf" by simp
        with end_segment_no_dots [OF "2.prems"(1)] show ?thesis by simp
      next
        case nh: False
        have "path_state (c # cs) segs buf = path_state cs segs (buf @ percent_encode path_set c)"
          by (subst eq) (use False nq nh in \<open>simp only: if_False simp_thms\<close>)
        with "2.prems"(2) have p: "path_state cs segs (buf @ percent_encode path_set c) = (segs', q)"
          by simp
        from "2.IH"(2) [OF False nq nh "2.prems"(1) p] show ?thesis .
      qed
    qed
  qed
qed

lemma split_on_plain: "sep \<notin> set seg \<Longrightarrow> split_on sep seg = [seg]"
  by (induction seg) auto

lemma split_on_append:
  "sep \<notin> set seg \<Longrightarrow> split_on sep (seg @ sep # rest) = seg # split_on sep rest"
  by (induction seg) auto

lemma split_on_serialized:
  "\<forall>seg\<in>set segs. sep \<notin> set seg \<Longrightarrow> segs \<noteq> []
   \<Longrightarrow> split_on sep (concat (map ((#) sep) segs)) = [] # segs"
proof (induction segs)
  case Nil
  then show ?case by simp
next
  case (Cons seg segs)
  show ?case
  proof (cases segs)
    case Nil
    with Cons.prems show ?thesis by (simp add: split_on_plain)
  next
    case (Cons seg2 rest)
    with Cons.IH Cons.prems
    have ih: "split_on sep (concat (map ((#) sep) segs)) = [] # segs" by simp
    obtain r where r: "concat (map ((#) sep) segs) = sep # r" using Cons by simp
    with ih have "split_on sep r = segs" by simp
    with r Cons.prems show ?thesis by (simp add: split_on_append)
  qed
qed


text \<open>The decoded segments of a string reference are never \<open>.\<close> or \<open>..\<close>.\<close>

lemma raw_parts:
  obtains segs where
    "set (split_on (cu CHR ''/'') (pathname (URL_localhost p))) \<subseteq> insert [] (set segs)"
    "\<forall>seg\<in>set segs. \<not> single_dot seg \<and> \<not> double_dot seg"
proof -
  obtain segs q where
    ps: "path_state (tl (remove_tab_newline (strip_trailing (scalar_values p)))) [] [] = (segs, q)"
    and pn: "pathname (URL_localhost p) = concat (map ((#) (cu CHR ''/'')) segs)"
    and ns: "\<forall>seg\<in>set segs. cu CHR ''/'' \<notin> set seg"
    by (rule URL_segments)
  have nd: "\<forall>seg\<in>set segs. \<not> single_dot seg \<and> \<not> double_dot seg"
    by (rule path_state_no_dots [OF _ ps]) simp
  have "set (split_on (cu CHR ''/'') (pathname (URL_localhost p))) \<subseteq> insert [] (set segs)"
  proof (cases "segs = []")
    case True
    with pn show ?thesis by simp
  next
    case False
    from split_on_serialized [OF ns False] pn show ?thesis by auto
  qed
  with nd that show ?thesis by blast
qed

lemma decode_all_set:
  "decode_all ps = Some ds \<Longrightarrow> d \<in> set ds \<Longrightarrow> \<exists>p\<in>set ps. decodeURIComponent p = Some d"
  by (induction ps arbitrary: ds) (auto split: option.splits)

lemma referenceParts_no_dots:
  assumes "referenceParts ref = Inr parts"
  shows "\<forall>seg\<in>set parts. seg \<noteq> js ''.'' \<and> seg \<noteq> js ''..''"
proof (cases ref)
  case (PathArray arr)
  with assms have "parts = arr" "find dot_or_dotdot arr = None"
    by (auto simp: referenceParts_def split: if_splits)
  then show ?thesis by (auto simp: find_None_iff dot_or_dotdot_def)
next
  case (PathString p)
  with assms have d: "decode_all (split_on (cu CHR ''/'') (pathname (URL_localhost p))) = Some parts"
    by (auto simp: referenceParts_def Let_def split: if_splits option.splits)
  obtain segs where segs:
    "set (split_on (cu CHR ''/'') (pathname (URL_localhost p))) \<subseteq> insert [] (set segs)"
    "\<forall>seg\<in>set segs. \<not> single_dot seg \<and> \<not> double_dot seg"
    by (rule raw_parts)
  show ?thesis
  proof
    fix seg assume "seg \<in> set parts"
    from decode_all_set [OF d this] obtain raw
      where raw: "raw \<in> set (split_on (cu CHR ''/'') (pathname (URL_localhost p)))"
        "decodeURIComponent raw = Some seg" by blast
    from raw(1) segs have nd: "\<not> single_dot raw \<and> \<not> double_dot raw"
      using no_dots_Nil by auto
    show "seg \<noteq> js ''.'' \<and> seg \<noteq> js ''..''"
    proof (intro conjI notI)
      assume "seg = js ''.''"
      with raw(2) have "single_dot raw" by (intro decode_dot) simp
      with nd show False by simp
    next
      assume "seg = js ''..''"
      with raw(2) have "double_dot raw" by (intro decode_dotdot) simp
      with nd show False by simp
    qed
  qed
qed

text \<open>What \<open>parsePath\<close> returns, in terms of the parts of the reference.\<close>

lemma parsePath_accepts:
  assumes "parsePath st ref = Inr (parts, trailing)"
  shows "\<exists>rparts. referenceParts ref = Inr rparts
      \<and> \<not> list_ex FORBIDDEN_CHARACTERS rparts
      \<and> (\<forall>ig. ignorePattern st = Some ig \<longrightarrow> \<not> list_ex ig rparts)
      \<and> (parts = rparts \<or> parts = butlast rparts
          \<or> (onDirectory st = ServeIndex \<and> parts = butlast rparts @ [js ''index.html'']))"
proof -
  from assms obtain rparts where r: "referenceParts ref = Inr rparts"
    by (cases "referenceParts ref") (auto simp: parsePath_def)
  from assms show ?thesis
    unfolding parsePath_parts [OF r] using r
    by (auto split: if_splits OnDirectory.splits)
qed

lemma open_parts:
  assumes "open st ref hdrs s = (Inr info, s')"
  shows "\<exists>trailing. parsePath st ref = Inr (pathParts (attachedData info), trailing)"
proof -
  from assms obtain parts trailing where p: "parsePath st ref = Inr (parts, trailing)"
    by (cases "parsePath st ref") (auto simp: open_def)
  from assms p obtain s1 where
    t: "open_try st ref parts trailing (join (platform st) (root st) parts) hdrs s = (Inr info, s1)"
    by (auto simp: open_def Let_def split: sum.splits prod.splits option.splits)
  then have "pathParts (attachedData info) = parts"
    by (auto simp: open_try_def Let_def fileInfo_def directoryInfo_def
        split: sum.splits prod.splits option.splits if_splits)
  with p show ?thesis by auto
qed

lemma index_html_clean: "\<not> FORBIDDEN_CHARACTERS (js ''index.html'')"
  by (simp add: FORBIDDEN_CHARACTERS_def forbidden_unit_def)


section \<open>Path safety\<close>

text \<open>
  Claim C1, as stated, fails for the ignore pattern: with \<open>onDirectory: 'serve-index'\<close>
  and an ignore pattern that matches \<open>index.html\<close>, \<open>open\<close> succeeds on \<open>/\<close> and the
  resulting path parts end in the segment \<open>index.html\<close>, which matches the pattern. The
  segment is put in place of the trailing slash after the parts of the reference have
  been checked.
\<close>

theorem path_safety_counterexample:
  "ignorePattern index_storage = Some index_html_pattern
   \<and> fst (open index_storage (PathString (js ''/'')) no_headers demo_world)
       = Inr (fileInfo [[], js ''index.html''] (js ''/srv/index.html'') 3
               (node_stats (File 1000 20)) None (js ''identity''))
   \<and> pathParts (attachedData (fileInfo [[], js ''index.html''] (js ''/srv/index.html'') 3
               (node_stats (File 1000 20)) None (js ''identity''))) = [[], js ''index.html'']
   \<and> index_html_pattern (js ''index.html'')"
  by (simp add: open_eval index_storage_def index_html_pattern_def)

text \<open>
  Claim C1, amended. When \<open>open\<close> succeeds, no segment of the resulting path parts is
  \<open>.\<close> or \<open>..\<close> and none contains a forbidden character. The resulting path parts are
  the parts of the reference, or these without the trailing empty segment, or, with
  \<open>'serve-index'\<close>, these with \<open>index.html\<close> in place of the trailing empty segment; and
  when an ignore pattern is configured, no part of the reference matches it.
\<close>

theorem path_safety:
  assumes "open st ref hdrs s = (Inr info, s')"
  shows "(\<forall>seg\<in>set (pathParts (attachedData info)).
             seg \<noteq> js ''.'' \<and> seg \<noteq> js ''..'' \<and> \<not> list_ex forbidden_unit seg)
    \<and> (\<exists>rparts. referenceParts ref = Inr rparts
          \<and> (pathParts (attachedData info) = rparts
              \<or> pathParts (attachedData info) = butlast rparts
              \<or> (onDirectory st = ServeIndex
                  \<and> pathParts (attachedData info) = butlast rparts @ [js ''index.html'']))
          \<and> (\<forall>ig. ignorePattern st = Some ig \<longrightarrow> (\<forall>seg\<in>set rparts. \<not> ig seg)))"
proof -
  from open_parts [OF assms] obtain trailing
    where "parsePath st ref = Inr (pathParts (attachedData info), trailing)" by blast
  from parsePath_accepts [OF this] obtain rparts where r: "referenceParts ref = Inr rparts"
    and f: "\<not> list_ex FORBIDDEN_CHARACTERS rparts"
    and i: "\<forall>ig. ignorePattern st = Some ig \<longrightarrow> \<not> list_ex ig rparts"
    and p: "pathParts (attachedData info) = rparts \<or> pathParts (attachedData info) = butlast rparts
          \<or> (onDirectory st = ServeIndex
              \<and> pathParts (attachedData info) = butlast rparts @ [js ''index.html''])"
    by blast
  have ok: "seg \<noteq> js ''.'' \<and> seg \<noteq> js ''..'' \<and> \<not> list_ex forbidden_unit seg"
    if "seg \<in> set rparts \<or> seg = js ''index.html''" for seg
    using that
  proof
    assume "seg \<in> set rparts"
    with referenceParts_no_dots [OF r] f show ?thesis
      by (auto simp: list_ex_iff FORBIDDEN_CHARACTERS_def)
  next
    assume "seg = js ''index.html''"
    with index_html_clean show ?thesis by (simp add: FORBIDDEN_CHARACTERS_def)
  qed
  have "seg \<in> set rparts \<or> seg = js ''index.html''"
    if "seg \<in> set (pathParts (attachedData info))" for seg
    using that p by (auto dest: in_set_butlastD)
  with ok have "\<forall>seg\<in>set (pathParts (attachedData info)).
             seg \<noteq> js ''.'' \<and> seg \<noteq> js ''..'' \<and> \<not> list_ex forbidden_unit seg" by blast
  moreover from i have "\<forall>ig. ignorePattern st = Some ig \<longrightarrow> (\<forall>seg\<in>set rparts. \<not> ig seg)"
    by (auto simp: list_ex_iff)
  ultimately show ?thesis using r p by blast
qed

theorem path_safety_witness:
  "open demo_storage (PathString (js ''/hello.txt'')) no_headers demo_world
     = (Inr (fileInfo [[], js ''hello.txt''] (js ''/srv/hello.txt'') 3
               (node_stats (File 1000 5)) None (js ''identity'')),
        snd (open demo_storage (PathString (js ''/hello.txt'')) no_headers demo_world))
   \<and> list_all (\<lambda>seg. seg \<noteq> js ''.'' \<and> seg \<noteq> js ''..'' \<and> \<not> list_ex forbidden_unit seg)
        [[], js ''hello.txt'']
   \<and> referenceParts (PathString (js ''/hello.txt'')) = Inr [[], js ''hello.txt'']
   \<and> ignorePattern demo_storage = Some leading_dot
   \<and> list_all (\<lambda>seg. \<not> leading_dot seg) [[], js ''hello.txt'']"
proof -
  let ?o = "open demo_storage (PathString (js ''/hello.txt'')) no_headers demo_world"
  let ?info = "fileInfo [[], js ''hello.txt''] (js ''/srv/hello.txt'') 3
               (node_stats (File 1000 5)) None (js ''identity'')"
  have "fst ?o = Inr ?info" by (simp add: open_eval)
  then have e: "?o = (Inr ?info, snd ?o)" by (metis prod.collapse)
  have p: "pathParts (attachedData ?info) = [[], js ''hello.txt'']" by (simp add: fileInfo_def)
  have r: "referenceParts (PathString (js ''/hello.txt'')) = Inr [[], js ''hello.txt'']"
    by (simp add: parse_eval)
  have g: "ignorePattern demo_storage = Some leading_dot" by (simp add: demo_storage_def)
  from path_safety [OF e] show ?thesis
    unfolding p r using e r g by (auto simp: list_all_iff)
qed


end
